theory Spec2Isabelle
  imports Complex_Main "HOL-Library.AList" "HOL-Library.Multiset"
begin

section \<open>Exceptions\<close>

text \<open>
  Every exception the modelled Python code can raise is a value. A function that may raise
  returns \<open>error + 'a\<close>, with \<open>Inl\<close> for the exception. \<open>NotModelled\<close> marks input
  outside the fragment of numpy that this development describes (see the section on
  aggregation maps); it is never produced by code of the repository itself.
\<close>

datatype error =
    TypeError
  | KeyError string
  | IndexError
  | ValueError
  | AttributeError
  | UnboundLocalError
  | AssertionError
  | FileExistsError
  | InvalidKeyError string
  | InvalidAggregationMapError string
  | NotModelled

section \<open>Run directories (logging/logger.py)\<close>

subsection \<open>Decimal strings\<close>

text \<open>
  Directory names are ASCII strings. \<open>isdigit\<close> is Python's \<open>str.isdigit\<close> on such a
  string (the empty string is not a digit string), \<open>py_int\<close> is \<open>int(d)\<close> on a digit
  string and \<open>str_nat\<close> is \<open>str(n)\<close> for a non-negative integer.
\<close>

definition digit_chars :: "char list" where
  "digit_chars = ''0123456789''"

definition isdigit :: "string \<Rightarrow> bool" where
  "isdigit s = (s \<noteq> [] \<and> list_all (\<lambda>c. c \<in> set digit_chars) s)"

definition digit_val :: "char \<Rightarrow> nat" where
  "digit_val c = length (takeWhile (\<lambda>x. x \<noteq> c) digit_chars)"

definition digit_char :: "nat \<Rightarrow> char" where
  "digit_char d = digit_chars ! d"

definition py_int :: "string \<Rightarrow> nat" where
  "py_int s = foldl (\<lambda>acc c. 10 * acc + digit_val c) 0 s"

fun str_nat :: "nat \<Rightarrow> string" where
  "str_nat n = (if n < 10 then [digit_char n] else str_nat (n div 10) @ [digit_char (n mod 10)])"

declare str_nat.simps [simp del]

subsection \<open>The root directory\<close>

text \<open>
  The state of the file system that \<open>_make_run_dir\<close> sees is the listing of the root
  directory: the entries' names, each with the answer of \<open>os.path.isdir\<close>. The call
  \<open>os.makedirs(root, exist_ok=True)\<close> makes sure the root exists, so an absent root is the
  empty listing. Only one process runs: nothing else changes the listing between two steps.
\<close>

type_synonym listing = "(string \<times> bool) list"

definition os_path_join :: "string \<Rightarrow> string \<Rightarrow> string" where
  "os_path_join rootdir name =
     (if rootdir = [] \<or> last rootdir = CHR ''/'' then rootdir @ name else rootdir @ ''/'' @ name)"

text \<open>\<open>os.mkdir\<close>: a new directory entry, or \<open>FileExistsError\<close> when the name is taken.\<close>

definition os_mkdir :: "listing \<Rightarrow> string \<Rightarrow> error + listing" where
  "os_mkdir fs name =
     (if name \<in> set (map fst fs) then Inl FileExistsError else Inr (fs @ [(name, True)]))"

fun max_list :: "nat list \<Rightarrow> nat" where
  "max_list [] = 0"
| "max_list (x # xs) = fold max xs x"

definition maximum_existing_run_id :: "listing \<Rightarrow> nat" where
  "maximum_existing_run_id fs =
     (let dir_nrs = map (\<lambda>e. py_int (fst e)) (filter (\<lambda>e. snd e \<and> isdigit (fst e)) fs)
      in if dir_nrs \<noteq> [] then max_list dir_nrs else 0)"

text \<open>
  The \<open>while log_dir is None\<close> loop of \<open>_make_run_dir\<close>. \<open>fail_count\<close> is the loop's
  counter: a failed \<open>os.mkdir\<close> is retried while \<open>fail_count < 1000\<close> and re-raised
  afterwards. The sleep between two attempts has no effect on the listing.
\<close>

function make_run_dir_loop :: "string \<Rightarrow> listing \<Rightarrow> nat \<Rightarrow> error + ((nat \<times> string) \<times> listing)" where
  "make_run_dir_loop rootdir fs fail_count =
     (let run_id = maximum_existing_run_id fs + 1;
          log_dir_tmp = os_path_join rootdir (str_nat run_id)
      in case os_mkdir fs (str_nat run_id) of
           Inr fs' \<Rightarrow> Inr ((run_id, log_dir_tmp), fs')
         | Inl e \<Rightarrow>
             if fail_count < 1000 then make_run_dir_loop rootdir fs (fail_count + 1)
             else Inl e)"
  by pat_completeness auto
termination
  by (relation "measure (\<lambda>(rootdir, fs, fail_count). 1000 - fail_count)") auto

declare make_run_dir_loop.simps [simp del]

text \<open>
  \<open>_make_run_dir(_id, root)\<close>. With a requested id the function only builds the path and
  calls \<open>os.makedirs(root, exist_ok=True)\<close> again: the listing is unchanged.
\<close>

definition make_run_dir :: "nat option \<Rightarrow> string \<Rightarrow> listing \<Rightarrow> error + ((nat \<times> string) \<times> listing)" where
  "make_run_dir requested rootdir fs =
     (case requested of
        None \<Rightarrow> make_run_dir_loop rootdir fs 0
      | Some run_id \<Rightarrow> Inr ((run_id, os_path_join rootdir (str_nat run_id)), fs))"

text \<open>
  Allocating \<open>n\<close> times in sequence from the same root, each call with no requested id:
  the ids in the order they were returned, and the final listing.
\<close>

fun allocate_n :: "nat \<Rightarrow> string \<Rightarrow> listing \<Rightarrow> error + (nat list \<times> listing)" where
  "allocate_n 0 rootdir fs = Inr ([], fs)"
| "allocate_n (Suc n) rootdir fs =
     (case make_run_dir None rootdir fs of
        Inl e \<Rightarrow> Inl e
      | Inr ((run_id, log_dir), fs') \<Rightarrow>
          (case allocate_n n rootdir fs' of
             Inl e \<Rightarrow> Inl e
           | Inr (ids, fs'') \<Rightarrow> Inr (run_id # ids, fs'')))"

text \<open>The set \<open>S\<close> of ids already claimed: the digit-named subdirectories, read as integers.\<close>

definition claimed_ids :: "listing \<Rightarrow> nat set" where
  "claimed_ids fs = set (map (\<lambda>e. py_int (fst e)) (filter (\<lambda>e. snd e \<and> isdigit (fst e)) fs))"

definition max_claimed :: "listing \<Rightarrow> nat" where
  "max_claimed fs = (if claimed_ids fs = {} then 0 else Max (claimed_ids fs))"

section \<open>Machine numbers\<close>

text \<open>
  numpy is not part of the repository; its arrays hold machine numbers. A \<open>float64\<close> is an
  IEEE 754 binary64 number: \<open>Fin x\<close> for the finite value \<open>x\<close>, an infinity, or NaN. The
  sign of a zero is not kept. An operation returns the exact result rounded to the nearest
  float64, ties to the even significand, and an infinity when the rounded result leaves the
  range.
\<close>

datatype f64 = Fin real | PosInf | NegInf | NaN

definition pow2 :: "int \<Rightarrow> real" where
  "pow2 e = (if 0 \<le> e then 2 ^ nat e else 1 / 2 ^ nat (- e))"

text \<open>
  The floats of the binade of \<open>x\<close> are the multiples of \<open>pow2 (binade x - 52)\<close>; below the
  binade \<open>-1022\<close> lie the subnormal numbers, with the spacing of that binade.
\<close>

definition binade :: "real \<Rightarrow> int" where
  "binade x = max \<lfloor>log 2 \<bar>x\<bar>\<rfloor> (- 1022)"

text \<open>The nearest integer, the even one of the two when \<open>r\<close> lies halfway.\<close>

definition round_even :: "real \<Rightarrow> int" where
  "round_even r =
     (let f = \<lfloor>r\<rfloor>
      in if r - of_int f < 1 / 2 then f
         else if 1 / 2 < r - of_int f then f + 1
         else if even f then f else f + 1)"

text \<open>\<open>round64 x\<close> is the float64 nearest to the real number \<open>x\<close>.\<close>

definition round64 :: "real \<Rightarrow> f64" where
  "round64 x =
     (if x = 0 then Fin 0
      else let u = pow2 (binade x - 52);
               r = u * of_int (round_even (x / u))
           in if 2 ^ 1024 \<le> \<bar>r\<bar> then (if 0 < x then PosInf else NegInf) else Fin r)"

text \<open>
  The operations the code uses on float64: \<open>+\<close>, \<open>-\<close>, \<open>** 2\<close> (numpy squares by one
  multiplication), \<open>/\<close> and \<open>np.sqrt\<close>. The square root of a negative number is NaN. A zero
  divisor counts as \<open>+0\<close>; the code divides by the number of runs only.
\<close>

fun fadd :: "f64 \<Rightarrow> f64 \<Rightarrow> f64" where
  "fadd (Fin x) (Fin y) = round64 (x + y)"
| "fadd NaN b = NaN"
| "fadd a NaN = NaN"
| "fadd PosInf NegInf = NaN"
| "fadd NegInf PosInf = NaN"
| "fadd PosInf b = PosInf"
| "fadd a PosInf = PosInf"
| "fadd NegInf b = NegInf"
| "fadd a NegInf = NegInf"

fun fsub :: "f64 \<Rightarrow> f64 \<Rightarrow> f64" where
  "fsub (Fin x) (Fin y) = round64 (x - y)"
| "fsub NaN b = NaN"
| "fsub a NaN = NaN"
| "fsub PosInf PosInf = NaN"
| "fsub NegInf NegInf = NaN"
| "fsub PosInf b = PosInf"
| "fsub a PosInf = NegInf"
| "fsub NegInf b = NegInf"
| "fsub a NegInf = PosInf"

fun fsquare :: "f64 \<Rightarrow> f64" where
  "fsquare (Fin x) = round64 (x * x)"
| "fsquare NaN = NaN"
| "fsquare a = PosInf"

fun fdiv :: "f64 \<Rightarrow> f64 \<Rightarrow> f64" where
  "fdiv (Fin x) (Fin y) =
     (if y = 0 then (if x = 0 then NaN else if 0 < x then PosInf else NegInf)
      else round64 (x / y))"
| "fdiv NaN b = NaN"
| "fdiv a NaN = NaN"
| "fdiv (Fin x) b = Fin 0"
| "fdiv PosInf (Fin y) = (if 0 \<le> y then PosInf else NegInf)"
| "fdiv NegInf (Fin y) = (if 0 \<le> y then NegInf else PosInf)"
| "fdiv a b = NaN"

fun fsqrt :: "f64 \<Rightarrow> f64" where
  "fsqrt (Fin x) = (if x < 0 then NaN else round64 (sqrt x))"
| "fsqrt PosInf = PosInf"
| "fsqrt a = NaN"

text \<open>
  An \<open>int64\<close> is an integer of 64 bits in two's complement; numpy's arithmetic on arrays
  of them wraps around.
\<close>

definition int64 :: "int \<Rightarrow> bool" where
  "int64 i \<longleftrightarrow> - (2 ^ 63) \<le> i \<and> i < 2 ^ 63"

definition wrap64 :: "int \<Rightarrow> int" where
  "wrap64 i = (i + 2 ^ 63) mod 2 ^ 64 - 2 ^ 63"

section \<open>Python values and dictionaries (reading/data_operations.py)\<close>

text \<open>
  The values a run's record holds. \<open>PInt\<close> is a Python int, of any size; \<open>PFloat x\<close> is
  the finite Python float of value \<open>x\<close> and \<open>PNaN\<close> the float NaN; infinite floats are not
  values of the model. \<open>PArray\<close> is a one-dimensional numpy array of \<open>float64\<close>, \<open>PList\<close>
  a Python list. Object identity is not modelled: \<open>deepcopy\<close> is the identity on these
  values.
\<close>

datatype pyval =
    PNone
  | PInt int
  | PFloat real
  | PNaN
  | PStr string
  | PList "pyval list"
  | PArray "f64 list"

text \<open>A \<open>dict\<close> with string keys, in insertion order; the keys are distinct.\<close>

type_synonym pydict = "(string \<times> pyval) list"

definition LAZYDATA :: pyval where
  "LAZYDATA = PStr ''LAZYDATA''"

definition dict_getitem :: "(string \<times> 'v) list \<Rightarrow> string \<Rightarrow> error + 'v" where
  "dict_getitem d key = (case map_of d key of None \<Rightarrow> Inl (KeyError key) | Some v \<Rightarrow> Inr v)"

text \<open>\<open>xs[i]\<close> on a list, for a Python integer \<open>i\<close> (a negative one counts from the end).\<close>

definition list_getitem :: "'a list \<Rightarrow> int \<Rightarrow> error + 'a" where
  "list_getitem xs i =
     (if 0 \<le> i \<and> i < int (length xs) then Inr (xs ! nat i)
      else if i < 0 \<and> - int (length xs) \<le> i then Inr (xs ! nat (int (length xs) + i))
      else Inl IndexError)"

subsection \<open>Backing files\<close>

text \<open>
  A backing file is read line by line, each line parsed by \<open>json.loads\<close> into one object.
  In the model a file is the list of its lines, already parsed: \<open>Some obj\<close> for a line that
  holds the JSON object \<open>obj\<close>, \<open>None\<close> for a line on which the loop body raises (no JSON,
  or JSON that is not an object). The file system maps a path to its file, \<open>None\<close> when
  \<open>open\<close> fails. The core only reads these files. The
  \<^emph>\<open>log\<close> threaded through every function that may read lists the paths opened so far, in
  order.
\<close>

type_synonym json_line = "pydict option"

type_synonym files = "string \<Rightarrow> json_line list option"

type_synonym log = "string list"

text \<open>The body of \<open>for key in keys\<close> in \<open>_load_dict_from_json\<close>, for one key of one line.\<close>

definition add_point :: "string \<Rightarrow> string \<times> pyval \<Rightarrow> (string \<times> pyval list) list \<Rightarrow> (string \<times> pyval list) list" where
  "add_point fname kv out_dict =
     (let full_key = fname @ ''.'' @ fst kv
      in case map_of out_dict full_key of
           Some vs \<Rightarrow> AList.update full_key (vs @ [snd kv]) out_dict
         | None \<Rightarrow> AList.update full_key [snd kv] out_dict)"

text \<open>
  The loop over the lines. An exception (a rejected line) ends the loop; \<open>out_dict\<close> keeps
  what the earlier lines put there.
\<close>

fun load_lines :: "string \<Rightarrow> json_line list \<Rightarrow> (string \<times> pyval list) list \<Rightarrow> (string \<times> pyval list) list" where
  "load_lines fname [] out_dict = out_dict"
| "load_lines fname (None # rest) out_dict = out_dict"
| "load_lines fname (Some cur_dict # rest) out_dict =
     load_lines fname rest (fold (add_point fname) cur_dict out_dict)"

definition load_dict_from_json :: "files \<Rightarrow> string \<Rightarrow> string \<Rightarrow> pydict" where
  "load_dict_from_json fs json_file_name fname =
     (case fs json_file_name of
        None \<Rightarrow> []
      | Some lines \<Rightarrow> map (\<lambda>(k, vs). (k, PList vs)) (load_lines fname lines []))"

subsection \<open>LazyData\<close>

text \<open>
  \<open>cache\<close> is the attribute \<open>_data\<close>: \<open>None\<close> until the first read, the loaded dictionary
  afterwards.
\<close>

record LazyData =
  file_name :: string
  parent_dir :: string
  path :: string
  used_keys :: "string set"
  cache :: "pydict option"

definition LazyData_init :: "string \<Rightarrow> string \<Rightarrow> LazyData" where
  "LazyData_init pdir fname =
     \<lparr>file_name = fname, parent_dir = pdir, path = os_path_join pdir (fname @ ''.json''),
      used_keys = {}, cache = None\<rparr>"

text \<open>
  \<open>get_data\<close> returns the value or the \<open>KeyError\<close> of \<open>self._data[key]\<close>, the object after
  the call (it is changed before the lookup, so also when the lookup fails) and the log.
\<close>

definition LazyData_reload :: "files \<Rightarrow> LazyData \<Rightarrow> string \<Rightarrow> log \<Rightarrow> (error + pyval) \<times> LazyData \<times> log" where
  "LazyData_reload fs self key lg =
     (let loaded = load_dict_from_json fs (path self) (file_name self)
      in (dict_getitem loaded key,
          self\<lparr>cache := Some loaded, used_keys := insert key (used_keys self)\<rparr>,
          lg @ [path self]))"

definition LazyData_get_data :: "files \<Rightarrow> LazyData \<Rightarrow> string \<Rightarrow> log \<Rightarrow> (error + pyval) \<times> LazyData \<times> log" where
  "LazyData_get_data fs self key lg =
     (case cache self of
        None \<Rightarrow> LazyData_reload fs self key lg
      | Some d \<Rightarrow>
          if key \<notin> used_keys self then LazyData_reload fs self key lg
          else (dict_getitem d key, self, lg))"

text \<open>
  \<open>free_unused\<close>: \<open>self._data.keys()\<close> raises \<open>AttributeError\<close> when \<open>_data\<close> is still
  \<open>None\<close>; otherwise every cached key outside \<open>used_keys\<close> is deleted.
\<close>

definition LazyData_free_unused :: "LazyData \<Rightarrow> error + LazyData" where
  "LazyData_free_unused self =
     (case cache self of
        None \<Rightarrow> Inl AttributeError
      | Some d \<Rightarrow>
          (let unused_keys = filter (\<lambda>k. k \<notin> used_keys self) (map fst d)
           in Inr (self\<lparr>cache := Some (fold AList.delete unused_keys d)\<rparr>)))"

subsection \<open>Config: one run's record\<close>

text \<open>
  \<open>config['lazy']\<close> maps a key to a concrete value or to a callable, the bound method
  \<open>get_data\<close> of one of the record's LazyData objects. \<open>Callable p\<close> is the method of the
  object stored in \<open>lazydata_dict\<close> under \<open>p\<close>. A callable whose object is missing from
  \<open>lazydata_dict\<close> cannot arise in Python (the method holds its object); the model answers
  \<open>NotModelled\<close> there.
\<close>

datatype lazyval = Eager pyval | Callable string

record Config =
  flattened :: pydict
  lazy :: "(string \<times> lazyval) list"
  lazydata_dict :: "(string \<times> LazyData) list"

text \<open>
  The constructor. \<open>__init__\<close> stores its second argument as \<open>self.parend_dir\<close>, and
  \<open>_make_lazydict\<close> reads \<open>self.parent_dir\<close>. With no key marked \<open>LAZYDATA\<close> neither
  comprehension evaluates its body and \<open>lazydata_dict\<close> is the empty dictionary. With such
  a key the first comprehension raises \<open>AttributeError\<close>, which the bare \<open>except\<close> swallows,
  leaving \<open>lazydata_dict\<close> unset; the second comprehension then raises \<open>AttributeError\<close>
  out of the constructor.
\<close>

definition Config_init :: "pydict \<Rightarrow> string \<Rightarrow> error + Config" where
  "Config_init flattened_dict parend_dir =
     (let all_keys = map fst (filter (\<lambda>kv. snd kv = LAZYDATA) flattened_dict)
      in if all_keys = []
         then Inr \<lparr>flattened = flattened_dict,
                   lazy = map (\<lambda>(k, v). (k, Eager v)) flattened_dict,
                   lazydata_dict = []\<rparr>
         else Inl AttributeError)"

text \<open>\<open>self[key]\<close>, through \<open>LazyDict.__getitem__\<close>: a callable is called with the key.\<close>

definition Config_getitem :: "files \<Rightarrow> Config \<Rightarrow> string \<Rightarrow> log \<Rightarrow> (error + pyval) \<times> Config \<times> log" where
  "Config_getitem fs self key lg =
     (case map_of (lazy self) key of
        None \<Rightarrow> (Inl (KeyError key), self, lg)
      | Some (Eager v) \<Rightarrow> (Inr v, self, lg)
      | Some (Callable p) \<Rightarrow>
          (case map_of (lazydata_dict self) p of
             None \<Rightarrow> (Inl NotModelled, self, lg)
           | Some ld \<Rightarrow>
               (case LazyData_get_data fs ld key lg of
                  (r, ld', lg') \<Rightarrow>
                    (r, self\<lparr>lazydata_dict := AList.update p ld' (lazydata_dict self)\<rparr>, lg'))))"

text \<open>\<open>Config.free_unused\<close>: every LazyData of the record in turn; the first error ends it.\<close>

fun free_unused_all :: "(string \<times> LazyData) list \<Rightarrow> error + (string \<times> LazyData) list" where
  "free_unused_all [] = Inr []"
| "free_unused_all ((k, ld) # rest) =
     (case LazyData_free_unused ld of
        Inl e \<Rightarrow> Inl e
      | Inr ld' \<Rightarrow>
          (case free_unused_all rest of
             Inl e \<Rightarrow> Inl e
           | Inr rest' \<Rightarrow> Inr ((k, ld') # rest')))"

definition Config_free_unused :: "Config \<Rightarrow> error + Config" where
  "Config_free_unused self =
     (case free_unused_all (lazydata_dict self) of
        Inl e \<Rightarrow> Inl e
      | Inr lds \<Rightarrow> Inr (self\<lparr>lazydata_dict := lds\<rparr>))"

text \<open>
  \<open>Config.update(new_dict)\<close> with a dictionary of values (none of them callable): both
  views take every pair.
\<close>

definition Config_update :: "Config \<Rightarrow> pydict \<Rightarrow> Config" where
  "Config_update self new_dict =
     self\<lparr>lazy := fold (\<lambda>(k, v). AList.update k (Eager v)) new_dict (lazy self),
          flattened := fold (\<lambda>(k, v). AList.update k v) new_dict (flattened self)\<rparr>"

section \<open>Aggregation maps (reading/aggregation_maps.py)\<close>

datatype map_kind = LastMap | MinMap | MaxMap | AvgStdMap

record AggregationMap =
  keys :: "string list"
  map_name :: string
  kind :: map_kind

fun join_comma :: "string list \<Rightarrow> string" where
  "join_comma [] = []"
| "join_comma [k] = k"
| "join_comma (k # ks) = k @ '','' @ join_comma ks"

text \<open>\<open>make_name\<close>; the attribute \<open>name\<close> is its value.\<close>

definition make_name :: "AggregationMap \<Rightarrow> string" where
  "make_name self = map_name self @ ''('' @ join_comma (keys self) @ '')''"

definition Last_init :: "string \<Rightarrow> AggregationMap" where
  "Last_init key = \<lparr>keys = [key], map_name = ''last'', kind = LastMap\<rparr>"

definition Min_init :: "string \<Rightarrow> AggregationMap" where
  "Min_init key = \<lparr>keys = [key], map_name = ''min'', kind = MinMap\<rparr>"

definition Max_init :: "string \<Rightarrow> AggregationMap" where
  "Max_init key = \<lparr>keys = [key], map_name = ''max'', kind = MaxMap\<rparr>"

definition AvgStd_init :: "string \<Rightarrow> AggregationMap" where
  "AvgStd_init key = \<lparr>keys = [key], map_name = ''avgstd'', kind = AvgStdMap\<rparr>"

subsection \<open>The numpy functions used\<close>

text \<open>
  The functions of numpy are described on the input the maps are written for: numbers
  (Python ints that fit 64 bits, finite floats, NaN) and lists of numbers. On any other
  input the model answers \<open>NotModelled\<close>.

  \<open>np.asarray\<close> of a list: a list of ints, not empty, gives an \<open>int64\<close> array (the
  default integer of numpy on Linux); a list that holds a float, or the empty list, gives a
  \<open>float64\<close> array, each int converted to the nearest float64.
\<close>

datatype ndarray = Int64 "int list" | Float64 "f64 list"

fun all_int64 :: "pyval list \<Rightarrow> int list option" where
  "all_int64 [] = Some []"
| "all_int64 (PInt i # vs) = (if int64 i then map_option (Cons i) (all_int64 vs) else None)"
| "all_int64 (v # vs) = None"

fun to_float64 :: "pyval \<Rightarrow> f64 option" where
  "to_float64 (PInt i) = (if int64 i then Some (round64 (of_int i)) else None)"
| "to_float64 (PFloat x) = Some (Fin x)"
| "to_float64 PNaN = Some NaN"
| "to_float64 v = None"

fun all_float64 :: "pyval list \<Rightarrow> f64 list option" where
  "all_float64 [] = Some []"
| "all_float64 (v # vs) =
     (case to_float64 v of
        None \<Rightarrow> None
      | Some x \<Rightarrow> map_option (Cons x) (all_float64 vs))"

definition np_asarray :: "pyval list \<Rightarrow> error + ndarray" where
  "np_asarray vs =
     (case (if vs = [] then None else all_int64 vs) of
        Some zs \<Rightarrow> Inr (Int64 zs)
      | None \<Rightarrow>
          (case all_float64 vs of
             Some xs \<Rightarrow> Inr (Float64 xs)
           | None \<Rightarrow> Inl NotModelled))"

text \<open>
  The entries of an array as \<open>np.nanargmin\<close> and \<open>np.nanargmax\<close> compare them:
  \<open>Some x\<close> for the number \<open>x\<close> and \<open>None\<close> for NaN. A list of Python values never gives
  an array with an infinite entry.
\<close>

fun float_entries :: "f64 list \<Rightarrow> error + real option list" where
  "float_entries [] = Inr []"
| "float_entries (Fin x # xs) =
     (case float_entries xs of Inl e \<Rightarrow> Inl e | Inr r \<Rightarrow> Inr (Some x # r))"
| "float_entries (NaN # xs) =
     (case float_entries xs of Inl e \<Rightarrow> Inl e | Inr r \<Rightarrow> Inr (None # r))"
| "float_entries (v # xs) = Inl NotModelled"

fun array_entries :: "ndarray \<Rightarrow> error + real option list" where
  "array_entries (Int64 zs) = Inr (map (\<lambda>z. Some (of_int z)) zs)"
| "array_entries (Float64 xs) = float_entries xs"

definition np_entries :: "pyval list \<Rightarrow> error + real option list" where
  "np_entries vs = (case np_asarray vs of Inl e \<Rightarrow> Inl e | Inr a \<Rightarrow> array_entries a)"

text \<open>
  The scan behind \<open>np.nanargmin\<close> and \<open>np.nanargmax\<close>: NaN entries are skipped, and among
  the others the first entry that no other entry beats is kept, with its index. \<open>better\<close> is
  \<open><\<close> for the minimum and \<open>>\<close> for the maximum.
\<close>

fun nan_scan :: "(real \<Rightarrow> real \<Rightarrow> bool) \<Rightarrow> real option list \<Rightarrow> nat \<Rightarrow> (nat \<times> real) option \<Rightarrow> (nat \<times> real) option" where
  "nan_scan better [] i best = best"
| "nan_scan better (None # xs) i best = nan_scan better xs (Suc i) best"
| "nan_scan better (Some x # xs) i None = nan_scan better xs (Suc i) (Some (i, x))"
| "nan_scan better (Some x # xs) i (Some (j, b)) =
     nan_scan better xs (Suc i) (if better x b then Some (i, x) else Some (j, b))"

text \<open>
  \<open>np_nanargmin vs\<close> is \<open>np.nanargmin(np.asarray(vs), axis=0)\<close>, and likewise for the
  maximum. Both raise \<open>ValueError\<close> on an array with no entry other than NaN (the empty
  array included).
\<close>

definition np_nanargmin :: "pyval list \<Rightarrow> error + int" where
  "np_nanargmin vs =
     (case np_entries vs of
        Inl e \<Rightarrow> Inl e
      | Inr xs \<Rightarrow>
          (case nan_scan (\<lambda>x b. x < b) xs 0 None of
             None \<Rightarrow> Inl ValueError
           | Some (i, x) \<Rightarrow> Inr (int i)))"

definition np_nanargmax :: "pyval list \<Rightarrow> error + int" where
  "np_nanargmax vs =
     (case np_entries vs of
        Inl e \<Rightarrow> Inl e
      | Inr xs \<Rightarrow>
          (case nan_scan (\<lambda>x b. x > b) xs 0 None of
             None \<Rightarrow> Inl ValueError
           | Some (i, x) \<Rightarrow> Inr (int i)))"

text \<open>
  \<open>np.asarray\<close> of one sequence, \<open>len\<close> of a value and \<open>np.zeros\<close>; then the array
  operations of \<open>_compute_mean_and_std\<close>: the slice \<open>a[:n]\<close>, \<open>a ** 2\<close>, which stays in
  the type of \<open>a\<close> and wraps around on \<open>int64\<close>, and \<open>s + a\<close> for a \<open>float64\<close> array
  \<open>s\<close>, which converts an \<open>int64\<close> array to \<open>float64\<close> first.
\<close>

fun np_asarray_seq :: "pyval \<Rightarrow> error + ndarray" where
  "np_asarray_seq (PList vs) = np_asarray vs"
| "np_asarray_seq (PArray xs) = Inr (Float64 xs)"
| "np_asarray_seq v = Inl NotModelled"

fun py_len :: "pyval \<Rightarrow> error + nat" where
  "py_len (PList vs) = Inr (length vs)"
| "py_len (PArray xs) = Inr (length xs)"
| "py_len (PStr s) = Inr (length s)"
| "py_len v = Inl TypeError"

definition np_zeros :: "nat \<Rightarrow> f64 list" where
  "np_zeros n = replicate n (Fin 0)"

fun array_take :: "nat \<Rightarrow> ndarray \<Rightarrow> ndarray" where
  "array_take n (Int64 zs) = Int64 (take n zs)"
| "array_take n (Float64 xs) = Float64 (take n xs)"

fun array_square :: "ndarray \<Rightarrow> ndarray" where
  "array_square (Int64 zs) = Int64 (map (\<lambda>z. wrap64 (z * z)) zs)"
| "array_square (Float64 xs) = Float64 (map fsquare xs)"

fun as_float64 :: "ndarray \<Rightarrow> f64 list" where
  "as_float64 (Int64 zs) = map (\<lambda>z. round64 (of_int z)) zs"
| "as_float64 (Float64 xs) = xs"

definition array_add :: "f64 list \<Rightarrow> ndarray \<Rightarrow> f64 list" where
  "array_add s a = map2 fadd s (as_float64 a)"

text \<open>An entry of a \<open>float64\<close> array as a Python value.\<close>

fun float_item :: "f64 \<Rightarrow> error + pyval" where
  "float_item (Fin x) = Inr (PFloat x)"
| "float_item NaN = Inr PNaN"
| "float_item v = Inl NotModelled"

subsection \<open>Last\<close>

text \<open>
  \<open>Last.apply(data)\<close> subscripts its argument with the key, a string, and the result with
  \<open>-1\<close>. What it is called with decides the outcome, so the argument is either one
  dictionary or a list of dictionaries. A list subscripted with a string raises
  \<open>TypeError\<close>, which \<open>apply\<close> does not catch.
\<close>

datatype apply_arg = ArgDict pydict | ArgList "pydict list"

fun subscript_key :: "apply_arg \<Rightarrow> string \<Rightarrow> error + pyval" where
  "subscript_key (ArgDict d) key = dict_getitem d key"
| "subscript_key (ArgList ds) key = Inl TypeError"

fun subscript_last :: "pyval \<Rightarrow> error + pyval" where
  "subscript_last (PList vs) = list_getitem vs (- 1)"
| "subscript_last (PArray xs) =
     (case list_getitem xs (- 1) of Inl e \<Rightarrow> Inl e | Inr x \<Rightarrow> float_item x)"
| "subscript_last (PStr s) = list_getitem (map (\<lambda>c. PStr [c]) s) (- 1)"
| "subscript_last v = Inl TypeError"

text \<open>The two \<open>except\<close> clauses of \<open>Last.apply\<close>.\<close>

fun last_except :: "error \<Rightarrow> error + pydict" where
  "last_except (KeyError k) = Inr []"
| "last_except IndexError = Inr []"
| "last_except e = Inl e"

definition Last_apply :: "AggregationMap \<Rightarrow> apply_arg \<Rightarrow> error + pydict" where
  "Last_apply self arg =
     (case list_getitem (keys self) 0 of
        Inl e \<Rightarrow> Inl e
      | Inr key \<Rightarrow>
          (case subscript_key arg key of
             Inl e \<Rightarrow> last_except e
           | Inr seq \<Rightarrow>
               (case subscript_last seq of
                  Inl e \<Rightarrow> last_except e
                | Inr v \<Rightarrow> Inr [(make_name self, v)])))"

subsection \<open>Min and Max\<close>

text \<open>\<open>[d[key] for d in data]\<close>.\<close>

fun select_key :: "string \<Rightarrow> pydict list \<Rightarrow> error + pyval list" where
  "select_key key [] = Inr []"
| "select_key key (d # ds) =
     (case dict_getitem d key of
        Inl e \<Rightarrow> Inl e
      | Inr v \<Rightarrow> (case select_key key ds of Inl e \<Rightarrow> Inl e | Inr vs \<Rightarrow> Inr (v # vs)))"

text \<open>
  The shared body of \<open>Min.apply\<close> and \<open>Max.apply\<close>: \<open>index\<close> starts at \<open>-1\<close> and keeps
  that value when the numpy call raises \<open>ValueError\<close>.
\<close>

definition arg_apply :: "(pyval list \<Rightarrow> error + int) \<Rightarrow> AggregationMap \<Rightarrow> pydict list \<Rightarrow> error + (pydict \<times> int)" where
  "arg_apply nanarg self rows =
     (case list_getitem (keys self) 0 of
        Inl e \<Rightarrow> Inl e
      | Inr key \<Rightarrow>
          (case select_key key rows of
             Inl e \<Rightarrow> Inl e
           | Inr selected_data \<Rightarrow>
               (case (case nanarg selected_data of
                        Inl ValueError \<Rightarrow> Inr (- 1)
                      | Inl e \<Rightarrow> Inl e
                      | Inr i \<Rightarrow> Inr i) of
                  Inl e \<Rightarrow> Inl e
                | Inr index \<Rightarrow>
                    (case list_getitem selected_data index of
                       Inl e \<Rightarrow> Inl e
                     | Inr v \<Rightarrow> Inr ([(make_name self, v)], index)))))"

definition Min_apply :: "AggregationMap \<Rightarrow> pydict list \<Rightarrow> error + (pydict \<times> int)" where
  "Min_apply = arg_apply np_nanargmin"

definition Max_apply :: "AggregationMap \<Rightarrow> pydict list \<Rightarrow> error + (pydict \<times> int)" where
  "Max_apply = arg_apply np_nanargmax"

subsection \<open>AvgStd\<close>

text \<open>
  \<open>_compute_mean_and_std\<close>, with \<open>log_scale\<close> at its default \<open>False\<close>. For a group of
  one run the value itself is the average, and the deviation is an array of zeros of its length.
\<close>

fun single_std :: "pydict \<Rightarrow> error + pydict" where
  "single_std [] = Inr []"
| "single_std ((key, v) # rest) =
     (case py_len v of
        Inl e \<Rightarrow> Inl e
      | Inr n \<Rightarrow>
          (case single_std rest of
             Inl e \<Rightarrow> Inl e
           | Inr r \<Rightarrow> Inr ((key @ ''_std'', PArray (np_zeros n)) # r)))"

definition single_run :: "pydict \<Rightarrow> error + pydict" where
  "single_run d =
     (case single_std d of
        Inl e \<Rightarrow> Inl e
      | Inr stds \<Rightarrow>
          Inr (fold (\<lambda>(k, v). AList.update k v) stds (map (\<lambda>(key, v). (key @ ''_avg'', v)) d)))"

text \<open>
  The body of the inner loop \<open>for key in keys\<close> at run number \<open>i\<close> with record \<open>p\<close>: \<open>out\<close>
  holds the running sums (\<open>_avg\<close>) and sums of squares (\<open>_std\<close>) as arrays.
\<close>

definition accumulate_key :: "nat \<Rightarrow> pydict \<Rightarrow> string \<Rightarrow> (string \<times> f64 list) list \<Rightarrow> error + (string \<times> f64 list) list" where
  "accumulate_key i p key out =
     (case dict_getitem p key of
        Inl e \<Rightarrow> Inl e
      | Inr v \<Rightarrow>
          (case py_len v of
             Inl e \<Rightarrow> Inl e
           | Inr n \<Rightarrow>
               (let out0 = (if i = 0
                            then AList.update (key @ ''_std'') (np_zeros n)
                                   (AList.update (key @ ''_avg'') (np_zeros n) out)
                            else out)
                in case dict_getitem out0 (key @ ''_avg'') of
                     Inl e \<Rightarrow> Inl e
                   | Inr avg \<Rightarrow>
                       (let len_data = (if i = 0 then n else min (length avg) n)
                        in case np_asarray_seq v of
                             Inl e \<Rightarrow> Inl e
                           | Inr arr \<Rightarrow>
                               (let new_array = array_take len_data arr;
                                    out1 = AList.update (key @ ''_avg'')
                                             (array_add (take len_data avg) new_array) out0
                                in case dict_getitem out1 (key @ ''_std'') of
                                     Inl e \<Rightarrow> Inl e
                                   | Inr sq \<Rightarrow>
                                       Inr (AList.update (key @ ''_std'')
                                              (array_add (take len_data sq) (array_square new_array))
                                              out1))))))"

fun accumulate_keys :: "nat \<Rightarrow> pydict \<Rightarrow> string list \<Rightarrow> (string \<times> f64 list) list \<Rightarrow> error + (string \<times> f64 list) list" where
  "accumulate_keys i p [] out = Inr out"
| "accumulate_keys i p (key # ks) out =
     (case accumulate_key i p key out of
        Inl e \<Rightarrow> Inl e
      | Inr out' \<Rightarrow> accumulate_keys i p ks out')"

text \<open>The outer loop \<open>for i, p in enumerate(data_list)\<close>, from run number \<open>i\<close> on.\<close>

fun accumulate_runs :: "nat \<Rightarrow> pydict list \<Rightarrow> string list \<Rightarrow> (string \<times> f64 list) list \<Rightarrow> error + (string \<times> f64 list) list" where
  "accumulate_runs i [] ks out = Inr out"
| "accumulate_runs i (p # ps) ks out =
     (case accumulate_keys i p ks out of
        Inl e \<Rightarrow> Inl e
      | Inr out' \<Rightarrow> accumulate_runs (Suc i) ps ks out')"

text \<open>
  The closing loop: the sums are divided by the number of runs (\<open>i + 1\<close> after the loop,
  converted to \<open>float64\<close>), the squared average is subtracted from the averaged squares,
  and the square root is taken of the difference as it is.
\<close>

definition finish_key :: "nat \<Rightarrow> string \<Rightarrow> (string \<times> f64 list) list \<Rightarrow> error + (string \<times> f64 list) list" where
  "finish_key n key out =
     (case dict_getitem out (key @ ''_avg'') of
        Inl e \<Rightarrow> Inl e
      | Inr s \<Rightarrow>
          (let avg = map (\<lambda>x. fdiv x (round64 (real n))) s;
               out1 = AList.update (key @ ''_avg'') avg out
           in case dict_getitem out1 (key @ ''_std'') of
                Inl e \<Rightarrow> Inl e
              | Inr sq \<Rightarrow>
                  Inr (AList.update (key @ ''_std'')
                         (map fsqrt (map2 fsub (map (\<lambda>x. fdiv x (round64 (real n))) sq)
                                               (map fsquare avg)))
                         out1)))"

fun finish_keys :: "nat \<Rightarrow> string list \<Rightarrow> (string \<times> f64 list) list \<Rightarrow> error + (string \<times> f64 list) list" where
  "finish_keys n [] out = Inr out"
| "finish_keys n (key # ks) out =
     (case finish_key n key out of
        Inl e \<Rightarrow> Inl e
      | Inr out' \<Rightarrow> finish_keys n ks out')"

definition compute_mean_and_std :: "pydict list \<Rightarrow> error + pydict" where
  "compute_mean_and_std data_list =
     (case data_list of
        [] \<Rightarrow> Inl IndexError
      | [d] \<Rightarrow> single_run d
      | d # ds \<Rightarrow>
          (let ks = map fst d
           in case accumulate_runs 0 data_list ks [] of
                Inl e \<Rightarrow> Inl e
              | Inr totals \<Rightarrow>
                  (case finish_keys (length data_list) ks totals of
                     Inl e \<Rightarrow> Inl e
                   | Inr out \<Rightarrow> Inr (map (\<lambda>(k, xs). (k, PArray xs)) out))))"

text \<open>\<open>{key: d[key] for key in self.keys}\<close>, for every \<open>d\<close> of \<open>data\<close>.\<close>

fun project_keys :: "string list \<Rightarrow> pydict \<Rightarrow> pydict \<Rightarrow> error + pydict" where
  "project_keys [] d acc = Inr acc"
| "project_keys (key # ks) d acc =
     (case dict_getitem d key of
        Inl e \<Rightarrow> Inl e
      | Inr v \<Rightarrow> project_keys ks d (AList.update key v acc))"

fun project_all :: "string list \<Rightarrow> pydict list \<Rightarrow> error + pydict list" where
  "project_all ks [] = Inr []"
| "project_all ks (d # ds) =
     (case project_keys ks d [] of
        Inl e \<Rightarrow> Inl e
      | Inr r \<Rightarrow> (case project_all ks ds of Inl e \<Rightarrow> Inl e | Inr rs \<Rightarrow> Inr (r # rs)))"

definition AvgStd_apply :: "AggregationMap \<Rightarrow> pydict list \<Rightarrow> error + pydict" where
  "AvgStd_apply self rows =
     (case project_all (keys self) rows of
        Inl e \<Rightarrow> Inl e
      | Inr projected \<Rightarrow> compute_mean_and_std projected)"

section \<open>Collections, groups and aggregation (reading/data_operations.py)\<close>

subsection \<open>Nested dictionaries\<close>

text \<open>
  \<open>_group_by\<close> and \<open>_aggregate\<close> build dictionaries nested one level per group value, with
  lists of records at the leaves.
\<close>

datatype nested = Leaf "Config list" | Node "(string \<times> nested) list"

type_synonym nested_dict = "(string \<times> nested) list"

text \<open>
  \<open>_add_nested_keys_val(dictionary, keys, val)\<close>. The loop walks down \<open>keys\<close>, creating an
  empty dictionary where a key is missing; the model returns the dictionary as it is after
  the call. The cases:
  \<^item> no key: \<open>dico + val\<close> adds a list to a dictionary, a \<open>TypeError\<close>; the handler's
    \<open>parent[key] = val\<close> then reads \<open>key\<close>, which the loop never bound:
    \<open>UnboundLocalError\<close>;
  \<^item> at the last key, \<open>dico\<close> is a list: \<open>parent[key] = dico + val\<close>;
  \<^item> at the last key, \<open>dico\<close> is a dictionary (just created, or an inner node): the
    \<open>TypeError\<close> handler stores \<open>val\<close>;
  \<^item> before the last key, \<open>dico\<close> is a list: the next \<open>dico[key]\<close> subscripts a list with
    a string, a \<open>TypeError\<close> outside any handler.
\<close>

fun add_nested_keys_val :: "nested_dict \<Rightarrow> string list \<Rightarrow> Config list \<Rightarrow> error + nested_dict" where
  "add_nested_keys_val dico [] val = Inl UnboundLocalError"
| "add_nested_keys_val dico [key] val =
     (case map_of dico key of
        None \<Rightarrow> Inr (AList.update key (Leaf val) dico)
      | Some (Leaf xs) \<Rightarrow> Inr (AList.update key (Leaf (xs @ val)) dico)
      | Some (Node sub) \<Rightarrow> Inr (AList.update key (Leaf val) dico))"
| "add_nested_keys_val dico (key # k # ks) val =
     (case map_of dico key of
        None \<Rightarrow>
          (case add_nested_keys_val [] (k # ks) val of
             Inl e \<Rightarrow> Inl e
           | Inr sub' \<Rightarrow> Inr (AList.update key (Node sub') dico))
      | Some (Leaf xs) \<Rightarrow> Inl TypeError
      | Some (Node sub) \<Rightarrow>
          (case add_nested_keys_val sub (k # ks) val of
             Inl e \<Rightarrow> Inl e
           | Inr sub' \<Rightarrow> Inr (AList.update key (Node sub') dico)))"

text \<open>
  \<open>reduce(dict.get, key, collection_dict)\<close>: \<open>dict.get\<close> needs a dictionary as its first
  argument (\<open>TypeError\<close> otherwise) and answers \<open>None\<close> for a missing key.
\<close>

fun reduce_get :: "nested option \<Rightarrow> string list \<Rightarrow> error + nested option" where
  "reduce_get acc [] = Inr acc"
| "reduce_get (Some (Node d)) (k # ks) = reduce_get (map_of d k) ks"
| "reduce_get acc (k # ks) = Inl TypeError"

text \<open>
  \<open>ConfigList(iterable)\<close> on what \<open>reduce\<close> returned: a list of records is taken as it is; a
  non-empty dictionary fails the \<open>isinstance\<close> assertion on its first key; an empty one
  gives the empty list; \<open>None\<close> is not iterable.
\<close>

fun ConfigList_init :: "nested option \<Rightarrow> error + Config list" where
  "ConfigList_init (Some (Leaf xs)) = Inr xs"
| "ConfigList_init (Some (Node d)) = (if d = [] then Inr [] else Inl AssertionError)"
| "ConfigList_init None = Inl TypeError"

subsection \<open>GroupedConfigs\<close>

record GroupedConfigs =
  group_keys :: "string list"
  grouped_dict :: "(string list \<times> Config list) list"
  group_vals :: "string list list"

text \<open>The constructor: \<open>__init__(self, group_keys, grouped_dict)\<close>, two arguments.\<close>

definition GroupedConfigs_init :: "string list \<Rightarrow> (string list \<times> Config list) list \<Rightarrow> GroupedConfigs" where
  "GroupedConfigs_init gkeys gdict =
     \<lparr>group_keys = gkeys, grouped_dict = gdict, group_vals = map fst gdict\<rparr>"

subsection \<open>Grouping\<close>

text \<open>
  The argument \<open>valid_keys\<close> of \<open>_check_valid_key\<close> is whatever the caller passes: a list of
  column names, or the bound method \<open>self.keys\<close> itself. \<open>key in valid_keys\<close> on a method
  raises \<open>TypeError\<close> (a method is not iterable), which is not the \<open>AssertionError\<close> the
  function catches.
\<close>

datatype keys_arg = KeysMethod | KeysList "string list"

text \<open>\<open>str\<close> of a list of strings, for strings without quotes or escapes.\<close>

definition str_list :: "string list \<Rightarrow> string" where
  "str_list ks = ''['' @ join_comma (map (\<lambda>k. [CHR 0x27] @ k @ [CHR 0x27]) ks) @ '']''"

definition check_valid_key :: "keys_arg \<Rightarrow> string \<Rightarrow> error + unit" where
  "check_valid_key valid_keys key =
     (case valid_keys of
        KeysMethod \<Rightarrow> Inl TypeError
      | KeysList ks \<Rightarrow>
          if key \<in> set ks then Inr ()
          else Inl (InvalidKeyError
                 (''The provided key '' @ key @ '' is invalid! Valid keys are: '' @ str_list ks)))"

fun check_valid_keys :: "keys_arg \<Rightarrow> string list \<Rightarrow> error + unit" where
  "check_valid_keys valid_keys [] = Inr ()"
| "check_valid_keys valid_keys (key # ks) =
     (case check_valid_key valid_keys key of
        Inl e \<Rightarrow> Inl e
      | Inr u \<Rightarrow> check_valid_keys valid_keys ks)"

text \<open>
  \<open>ConfigList.keys()\<close>: the columns of the data frame built from the records' flattened
  dictionaries, every key once, in the order of first appearance.
\<close>

definition ConfigList_keys :: "Config list \<Rightarrow> string list" where
  "ConfigList_keys self = rev (remdups (rev (concat (map (\<lambda>c. map fst (flattened c)) self))))"

text \<open>
  \<open>_group_by\<close>. \<open>str_of\<close> is Python's \<open>str\<close> on values, a parameter of the model. The set
  \<open>group_vals\<close> is kept as a list without repetition, in the order the tuples first occur
  (Python fixes no order for a set).
\<close>

fun lookup_keys :: "pydict \<Rightarrow> string list \<Rightarrow> error + pyval list" where
  "lookup_keys d [] = Inr []"
| "lookup_keys d (k # ks) =
     (case dict_getitem d k of
        Inl e \<Rightarrow> Inl e
      | Inr v \<Rightarrow> (case lookup_keys d ks of Inl e \<Rightarrow> Inl e | Inr vs \<Rightarrow> Inr (v # vs)))"

fun group_rows :: "(pyval \<Rightarrow> string) \<Rightarrow> Config list \<Rightarrow> string list \<Rightarrow> nested_dict \<Rightarrow> string list list
                    \<Rightarrow> error + (nested_dict \<times> string list list)" where
  "group_rows str_of [] list_group_keys collection_dict gvals = Inr (collection_dict, gvals)"
| "group_rows str_of (config_dict # rest) list_group_keys collection_dict gvals =
     (case lookup_keys (flattened config_dict) list_group_keys of
        Inl e \<Rightarrow> Inl e
      | Inr pkey_list \<Rightarrow>
          (let pkey_val = map str_of (filter (\<lambda>pkey. pkey \<noteq> PNone) pkey_list)
           in case add_nested_keys_val collection_dict pkey_val [config_dict] of
                Inl e \<Rightarrow> Inl e
              | Inr collection_dict' \<Rightarrow>
                  group_rows str_of rest list_group_keys collection_dict'
                    (if pkey_val \<in> set gvals then gvals else gvals @ [pkey_val])))"

fun collect_groups :: "nested_dict \<Rightarrow> string list list \<Rightarrow> error + (string list \<times> Config list) list" where
  "collect_groups collection_dict [] = Inr []"
| "collect_groups collection_dict (key # ks) =
     (case reduce_get (Some (Node collection_dict)) key of
        Inl e \<Rightarrow> Inl e
      | Inr r \<Rightarrow>
          (case ConfigList_init r of
             Inl e \<Rightarrow> Inl e
           | Inr cl \<Rightarrow>
               (case collect_groups collection_dict ks of
                  Inl e \<Rightarrow> Inl e
                | Inr gs \<Rightarrow> Inr ((key, cl) # gs))))"

definition group_by :: "(pyval \<Rightarrow> string) \<Rightarrow> Config list \<Rightarrow> string list
      \<Rightarrow> error + ((string list \<times> Config list) list \<times> string list \<times> string list list)" where
  "group_by str_of config_dicts list_group_keys =
     (case group_rows str_of config_dicts list_group_keys [] [] of
        Inl e \<Rightarrow> Inl e
      | Inr (collection_dict, gvals) \<Rightarrow>
          (case collect_groups collection_dict gvals of
             Inl e \<Rightarrow> Inl e
           | Inr gdict \<Rightarrow> Inr (gdict, list_group_keys, gvals)))"

text \<open>
  \<open>ConfigList.groupBy\<close>. The validation loop passes the method \<open>self.keys\<close>, not its
  result. The last statement calls \<open>GroupedConfigs\<close> with three positional arguments; the
  constructor takes two, so the call raises \<open>TypeError\<close> before any object exists.
\<close>

definition ConfigList_groupBy :: "(pyval \<Rightarrow> string) \<Rightarrow> Config list \<Rightarrow> string list \<Rightarrow> error + GroupedConfigs" where
  "ConfigList_groupBy str_of self list_group_keys =
     (case check_valid_keys KeysMethod list_group_keys of
        Inl e \<Rightarrow> Inl e
      | Inr u \<Rightarrow>
          (case group_by str_of self list_group_keys of
             Inl e \<Rightarrow> Inl e
           | Inr (collection_dict, gkeys, gvals) \<Rightarrow> Inl TypeError))"

subsection \<open>Aggregating one leaf group\<close>

text \<open>\<open>_extract_keys_from_maps\<close>: the maps' keys, each once, in order; \<open>seen\<close> is the set.\<close>

fun unseen_keys :: "string list \<Rightarrow> string list \<Rightarrow> string list" where
  "unseen_keys seen [] = []"
| "unseen_keys seen (k # ks) =
     (if k \<in> set seen then unseen_keys seen ks else k # unseen_keys (k # seen) ks)"

definition extract_keys_from_maps :: "AggregationMap list \<Rightarrow> string list" where
  "extract_keys_from_maps agg_maps = unseen_keys [] (concat (map keys agg_maps))"

text \<open>\<open>data = {key: config_dict[key] for key in value_keys}\<close>, reading through the record.\<close>

fun read_keys :: "files \<Rightarrow> Config \<Rightarrow> string list \<Rightarrow> pydict \<Rightarrow> log \<Rightarrow> (error + pydict) \<times> Config \<times> log" where
  "read_keys fs config_dict [] acc lg = (Inr acc, config_dict, lg)"
| "read_keys fs config_dict (key # ks) acc lg =
     (case Config_getitem fs config_dict key lg of
        (Inl e, c', lg') \<Rightarrow> (Inl e, c', lg')
      | (Inr v, c', lg') \<Rightarrow> read_keys fs c' ks (AList.update key v acc) lg')"

text \<open>
  The first loop of \<open>_aggregate_collection\<close>: for every record, read the requested keys,
  then call \<open>free_unused\<close> on the record. The result is \<open>val_array\<close> and the records as the
  loop leaves them.
\<close>

fun extract_rows :: "files \<Rightarrow> Config list \<Rightarrow> string list \<Rightarrow> log \<Rightarrow> (error + (pydict list \<times> Config list)) \<times> log" where
  "extract_rows fs [] value_keys lg = (Inr ([], []), lg)"
| "extract_rows fs (config_dict # rest) value_keys lg =
     (case read_keys fs config_dict value_keys [] lg of
        (Inl e, c', lg') \<Rightarrow> (Inl e, lg')
      | (Inr row, c', lg') \<Rightarrow>
          (case Config_free_unused c' of
             Inl e \<Rightarrow> (Inl e, lg')
           | Inr c'' \<Rightarrow>
               (case extract_rows fs rest value_keys lg' of
                  (Inl e, lg'') \<Rightarrow> (Inl e, lg'')
                | (Inr (rows, cs), lg'') \<Rightarrow> (Inr (row # rows, c'' # cs), lg''))))"

text \<open>
  \<open>agg_val, index = agg_map.apply(val_array)\<close>. \<open>Min\<close>, \<open>Max\<close> and \<open>AvgStd\<close> return a pair.
  \<open>Last.apply\<close> is handed the whole list \<open>val_array\<close> and returns a bare dictionary of at
  most one key, which cannot be unpacked into two names: \<open>ValueError\<close>.
\<close>

definition apply_and_unpack :: "AggregationMap \<Rightarrow> pydict list \<Rightarrow> error + (pydict \<times> int option)" where
  "apply_and_unpack agg_map val_array =
     (case kind agg_map of
        LastMap \<Rightarrow>
          (case Last_apply agg_map (ArgList val_array) of
             Inl e \<Rightarrow> Inl e
           | Inr d \<Rightarrow> Inl ValueError)
      | MinMap \<Rightarrow>
          (case Min_apply agg_map val_array of
             Inl e \<Rightarrow> Inl e
           | Inr (agg_val, index) \<Rightarrow> Inr (agg_val, Some index))
      | MaxMap \<Rightarrow>
          (case Max_apply agg_map val_array of
             Inl e \<Rightarrow> Inl e
           | Inr (agg_val, index) \<Rightarrow> Inr (agg_val, Some index))
      | AvgStdMap \<Rightarrow>
          (case AvgStd_apply agg_map val_array of
             Inl e \<Rightarrow> Inl e
           | Inr agg_val \<Rightarrow> Inr (agg_val, None)))"

text \<open>
  The second loop: one entry of \<open>agg_collection\<close> per map, the copied record (or records)
  updated with \<open>agg_val\<close>.
\<close>

fun apply_maps :: "Config list \<Rightarrow> pydict list \<Rightarrow> AggregationMap list \<Rightarrow> (string \<times> Config list) list
                    \<Rightarrow> error + (string \<times> Config list) list" where
  "apply_maps collection val_array [] agg_collection = Inr agg_collection"
| "apply_maps collection val_array (agg_map # rest) agg_collection =
     (case apply_and_unpack agg_map val_array of
        Inl e \<Rightarrow> Inl e
      | Inr (agg_val, index) \<Rightarrow>
          (case (case index of
                   Some i \<Rightarrow> (case list_getitem collection i of Inl e \<Rightarrow> Inl e | Inr c \<Rightarrow> Inr [c])
                 | None \<Rightarrow> Inr collection) of
             Inl e \<Rightarrow> Inl e
           | Inr new_collection \<Rightarrow>
               apply_maps collection val_array rest
                 (AList.update (make_name agg_map)
                    (map (\<lambda>config_dict. Config_update config_dict agg_val) new_collection)
                    agg_collection)))"

definition aggregate_collection :: "files \<Rightarrow> Config list \<Rightarrow> AggregationMap list \<Rightarrow> log
      \<Rightarrow> (error + (string \<times> Config list) list) \<times> log" where
  "aggregate_collection fs collection agg_maps lg =
     (case extract_rows fs collection (extract_keys_from_maps agg_maps) lg of
        (Inl e, lg') \<Rightarrow> (Inl e, lg')
      | (Inr (val_array, collection'), lg') \<Rightarrow> (apply_maps collection' val_array agg_maps [], lg'))"

subsection \<open>Aggregating every group\<close>

text \<open>The inner loop of \<open>_aggregate\<close>: one \<open>_add_nested_keys_val\<close> per map.\<close>

fun add_aggregates :: "AggregationMap list \<Rightarrow> string list \<Rightarrow> (string \<times> Config list) list
      \<Rightarrow> (string \<times> nested_dict) list \<Rightarrow> error + (string \<times> nested_dict) list" where
  "add_aggregates [] gval agg_config agg_config_dict = Inr agg_config_dict"
| "add_aggregates (agg_map # rest) gval agg_config agg_config_dict =
     (case dict_getitem agg_config_dict (make_name agg_map) of
        Inl e \<Rightarrow> Inl e
      | Inr dico \<Rightarrow>
          (case dict_getitem agg_config (make_name agg_map) of
             Inl e \<Rightarrow> Inl e
           | Inr val \<Rightarrow>
               (case add_nested_keys_val dico gval val of
                  Inl e \<Rightarrow> Inl e
                | Inr dico' \<Rightarrow>
                    add_aggregates rest gval agg_config
                      (AList.update (make_name agg_map) dico' agg_config_dict))))"

fun aggregate_items :: "files \<Rightarrow> (string list \<times> Config list) list \<Rightarrow> AggregationMap list
      \<Rightarrow> (string \<times> nested_dict) list \<Rightarrow> log \<Rightarrow> (error + (string \<times> nested_dict) list) \<times> log" where
  "aggregate_items fs [] aggregation_maps agg_config_dict lg = (Inr agg_config_dict, lg)"
| "aggregate_items fs ((gval, config_list) # rest) aggregation_maps agg_config_dict lg =
     (case aggregate_collection fs config_list aggregation_maps lg of
        (Inl e, lg') \<Rightarrow> (Inl e, lg')
      | (Inr agg_config, lg') \<Rightarrow>
          (case add_aggregates aggregation_maps gval agg_config agg_config_dict of
             Inl e \<Rightarrow> (Inl e, lg')
           | Inr agg_config_dict' \<Rightarrow> aggregate_items fs rest aggregation_maps agg_config_dict' lg'))"

text \<open>
  \<open>_aggregate\<close>. Its closing comprehension calls \<open>GroupedConfigs\<close> with three positional
  arguments once per map, which raises \<open>TypeError\<close> at the first map; with no map the
  result is the empty dictionary.
\<close>

definition aggregate :: "files \<Rightarrow> GroupedConfigs \<Rightarrow> AggregationMap list \<Rightarrow> log
      \<Rightarrow> (error + (string \<times> GroupedConfigs) list) \<times> log" where
  "aggregate fs groupedconfigs aggregation_maps lg =
     (case aggregate_items fs (grouped_dict groupedconfigs) aggregation_maps
             (fold (\<lambda>agg_map. AList.update (make_name agg_map) []) aggregation_maps []) lg of
        (Inl e, lg') \<Rightarrow> (Inl e, lg')
      | (Inr agg_config_dict, lg') \<Rightarrow>
          (if aggregation_maps = [] then Inr [] else Inl TypeError, lg'))"

text \<open>
  What a caller may put into the list handed to \<open>GroupedConfigs.aggregate\<close>: an instance
  of a class that inherits from \<open>AggregationMap\<close>, or any other object, given by its \<open>str\<close>.
\<close>

datatype pyobject = MapObject AggregationMap | OtherObject string

definition str_AggregationMap :: string where
  "str_AggregationMap =
     ''<class '' @ [CHR 0x27] @ ''experimentalist.reading.aggregation_maps.AggregationMap''
       @ [CHR 0x27] @ ''>''"

fun assert_valid_map :: "pyobject \<Rightarrow> error + AggregationMap" where
  "assert_valid_map (MapObject m) = Inr m"
| "assert_valid_map (OtherObject shown) =
     Inl (InvalidAggregationMapError
            (''The map '' @ shown @ '' must be an instance of a child class of  ''
               @ str_AggregationMap))"

fun assert_valid_maps :: "pyobject list \<Rightarrow> error + AggregationMap list" where
  "assert_valid_maps [] = Inr []"
| "assert_valid_maps (agg_map # rest) =
     (case assert_valid_map agg_map of
        Inl e \<Rightarrow> Inl e
      | Inr m \<Rightarrow> (case assert_valid_maps rest of Inl e \<Rightarrow> Inl e | Inr ms \<Rightarrow> Inr (m # ms)))"

definition GroupedConfigs_aggregate :: "files \<Rightarrow> GroupedConfigs \<Rightarrow> pyobject list \<Rightarrow> log
      \<Rightarrow> (error + (string \<times> GroupedConfigs) list) \<times> log" where
  "GroupedConfigs_aggregate fs self aggregation_maps lg =
     (case assert_valid_maps aggregation_maps of
        Inl e \<Rightarrow> (Inl e, lg)
      | Inr maps \<Rightarrow> aggregate fs self maps lg)"

subsection \<open>Differences between the records of a collection\<close>

text \<open>
  Python's \<open>!=\<close> on two values: numbers compare by value, NaN differs from everything,
  lists of different lengths differ and lists of one length differ where an element
  differs. Comparing arrays does not give a truth value (\<open>NotModelled\<close>).
\<close>

fun py_ne :: "pyval \<Rightarrow> pyval \<Rightarrow> error + bool"
  and py_ne_list :: "pyval list \<Rightarrow> pyval list \<Rightarrow> error + bool" where
  "py_ne (PArray xs) b = Inl NotModelled"
| "py_ne a (PArray ys) = Inl NotModelled"
| "py_ne PNaN b = Inr True"
| "py_ne a PNaN = Inr True"
| "py_ne PNone PNone = Inr False"
| "py_ne (PInt i) (PInt j) = Inr (i \<noteq> j)"
| "py_ne (PInt i) (PFloat y) = Inr (real_of_int i \<noteq> y)"
| "py_ne (PFloat x) (PInt j) = Inr (x \<noteq> real_of_int j)"
| "py_ne (PFloat x) (PFloat y) = Inr (x \<noteq> y)"
| "py_ne (PStr s) (PStr t) = Inr (s \<noteq> t)"
| "py_ne (PList xs) (PList ys) =
     (if length xs \<noteq> length ys then Inr True else py_ne_list xs ys)"
| "py_ne a b = Inr True"
| "py_ne_list (x # xs) (y # ys) =
     (case py_ne x y of
        Inl e \<Rightarrow> Inl e
      | Inr d \<Rightarrow> if d then Inr True else py_ne_list xs ys)"
| "py_ne_list xs ys = Inr False"

definition startswith :: "string \<Rightarrow> string \<Rightarrow> bool" where
  "startswith key start_key = (take (length start_key) key = start_key)"

text \<open>
  \<open>key in ref_dict\<close> is \<open>Mapping.__contains__\<close>: it reads \<open>ref_dict[key]\<close> and answers
  \<open>False\<close> on \<open>KeyError\<close>.
\<close>

definition Config_contains :: "files \<Rightarrow> Config \<Rightarrow> string \<Rightarrow> log \<Rightarrow> (error + bool) \<times> Config \<times> log" where
  "Config_contains fs self key lg =
     (case Config_getitem fs self key lg of
        (Inl (KeyError k), c', lg') \<Rightarrow> (Inr False, c', lg')
      | (Inl e, c', lg') \<Rightarrow> (Inl e, c', lg')
      | (Inr v, c', lg') \<Rightarrow> (Inr True, c', lg'))"

definition append_new :: "string \<Rightarrow> string list \<Rightarrow> string list" where
  "append_new key diff_keys = (if key \<notin> set diff_keys then diff_keys @ [key] else diff_keys)"

text \<open>
  The body of \<open>for key in config.keys()\<close> in \<open>config_diff\<close>, for the keys still to visit.
  The \<open>else\<close> belongs to the whole condition \<open>key in ref_dict and key.startswith(start_key)\<close>.
\<close>

fun diff_keys_loop :: "files \<Rightarrow> string \<Rightarrow> string list \<Rightarrow> Config \<Rightarrow> Config \<Rightarrow> string list \<Rightarrow> log
      \<Rightarrow> (error + (string list \<times> Config \<times> Config)) \<times> log" where
  "diff_keys_loop fs start_key [] ref_dict config diff_keys lg = (Inr (diff_keys, ref_dict, config), lg)"
| "diff_keys_loop fs start_key (key # ks) ref_dict config diff_keys lg =
     (case Config_contains fs ref_dict key lg of
        (Inl e, r1, lg1) \<Rightarrow> (Inl e, lg1)
      | (Inr present, r1, lg1) \<Rightarrow>
          if present \<and> startswith key start_key then
            (case Config_getitem fs r1 key lg1 of
               (Inl e, r2, lg2) \<Rightarrow> (Inl e, lg2)
             | (Inr a, r2, lg2) \<Rightarrow>
                 (case Config_getitem fs config key lg2 of
                    (Inl e, c3, lg3) \<Rightarrow> (Inl e, lg3)
                  | (Inr b, c3, lg3) \<Rightarrow>
                      (case py_ne a b of
                         Inl e \<Rightarrow> (Inl e, lg3)
                       | Inr differs \<Rightarrow>
                           diff_keys_loop fs start_key ks r2 c3
                             (if differs then append_new key diff_keys else diff_keys) lg3)))
          else diff_keys_loop fs start_key ks r1 config (append_new key diff_keys) lg1)"

text \<open>The outer loop, once \<open>ref_dict\<close> is the first record.\<close>

fun diff_configs :: "files \<Rightarrow> string \<Rightarrow> Config \<Rightarrow> Config list \<Rightarrow> string list \<Rightarrow> log
      \<Rightarrow> (error + string list) \<times> log" where
  "diff_configs fs start_key ref_dict [] diff_keys lg = (Inr diff_keys, lg)"
| "diff_configs fs start_key ref_dict (config # rest) diff_keys lg =
     (case diff_keys_loop fs start_key (map fst (lazy config)) ref_dict config diff_keys lg of
        (Inl e, lg') \<Rightarrow> (Inl e, lg')
      | (Inr (diff_keys', ref_dict', config'), lg') \<Rightarrow>
          diff_configs fs start_key ref_dict' rest diff_keys' lg')"

definition ConfigList_config_diff :: "files \<Rightarrow> Config list \<Rightarrow> string \<Rightarrow> log \<Rightarrow> (error + string list) \<times> log" where
  "ConfigList_config_diff fs self start_key lg =
     (case self of
        [] \<Rightarrow> (Inr [], lg)
      | ref_dict # rest \<Rightarrow> diff_configs fs start_key ref_dict rest [] lg)"

section \<open>Example data\<close>

text \<open>
  One run directory with a metrics file of two logged points, the LazyData object for it
  after a read of \<open>metrics.loss\<close>, and a record that owns a LazyData object nobody has
  read from yet.
\<close>

definition ex_file :: "json_line list" where
  "ex_file = [Some [(''loss'', PFloat 1), (''acc'', PFloat 2)],
              Some [(''loss'', PFloat 3), (''acc'', PFloat 4)]]"

definition ex_fs :: files where
  "ex_fs = (\<lambda>p. if p = ''runs/1/metrics.json'' then Some ex_file else None)"

definition ex_lazy :: LazyData where
  "ex_lazy = \<lparr>file_name = ''metrics'', parent_dir = ''runs/1'', path = ''runs/1/metrics.json'',
               used_keys = {''metrics.loss''},
               cache = Some [(''metrics.loss'', PList [PFloat 1, PFloat 3]),
                             (''metrics.acc'', PList [PFloat 2, PFloat 4])]\<rparr>"

definition ex_unread :: Config where
  "ex_unread = \<lparr>flattened = [(''x'', PInt 3), (''metrics.loss'', LAZYDATA)],
                 lazy = [(''x'', Eager (PInt 3)), (''metrics.loss'', Callable ''metrics'')],
                 lazydata_dict = [(''metrics'', LazyData_init ''runs/1'' ''metrics'')]\<rparr>"

definition ex_grouped :: GroupedConfigs where
  "ex_grouped = GroupedConfigs_init [''x''] [([''3''], [ex_unread])]"

text \<open>A record with concrete values only, as the constructor builds it.\<close>

definition eager_config :: "pydict \<Rightarrow> Config" where
  "eager_config d = \<lparr>flattened = d, lazy = map (\<lambda>(k, v). (k, Eager v)) d, lazydata_dict = []\<rparr>"

section \<open>Notions used to state the properties\<close>

text \<open>
  \<open>first_best better xs i b\<close>: in the float array \<open>xs\<close>, the entry at index \<open>i\<close> is the
  number \<open>b\<close>, no number of the array is better than \<open>b\<close>, and \<open>b\<close> is better than every
  number before index \<open>i\<close>. With \<open><\<close> for \<open>better\<close> this is the first position of the least
  number, NaN entries left aside; with \<open>>\<close>, of the greatest.
\<close>

definition first_best :: "(real \<Rightarrow> real \<Rightarrow> bool) \<Rightarrow> real option list \<Rightarrow> nat \<Rightarrow> real \<Rightarrow> bool" where
  "first_best better xs i b =
     (i < length xs \<and> xs ! i = Some b
      \<and> (\<forall>k<length xs. \<forall>y. xs ! k = Some y \<longrightarrow> \<not> better y b)
      \<and> (\<forall>k<i. \<forall>y. xs ! k = Some y \<longrightarrow> better b y))"

text \<open>
  The curves of the element-wise reduction, in the words of the specification: the common
  length starts as the first run's length and is cut to the shorter length at every further
  run; at each position below it the mean is the sum over the runs divided by their number,
  and the deviation is the square root of the mean of the squares minus the squared mean.
  \<open>float_mean_curve\<close> and \<open>float_std_curve\<close> are these curves in machine arithmetic: the
  entries of the runs are summed in \<open>float64\<close>, in the order of the runs and from \<open>0.0\<close>,
  and the squares are those of each run's array. \<open>mean_curve\<close> and \<open>std_curve\<close> are the
  curves of real numbers.
\<close>

definition common_length :: "'a list list \<Rightarrow> nat" where
  "common_length xss = fold min (map length (tl xss)) (length (hd xss))"

definition float_sum :: "f64 list \<Rightarrow> f64" where
  "float_sum xs = foldl fadd (Fin 0) xs"

definition float_mean :: "f64 list \<Rightarrow> f64" where
  "float_mean xs = fdiv (float_sum xs) (round64 (real (length xs)))"

definition float_mean_curve :: "ndarray list \<Rightarrow> f64 list" where
  "float_mean_curve arrs =
     map (\<lambda>j. float_mean (map (\<lambda>a. as_float64 a ! j) arrs))
       [0..<common_length (map as_float64 arrs)]"

definition float_std_curve :: "ndarray list \<Rightarrow> f64 list" where
  "float_std_curve arrs =
     map (\<lambda>j. fsqrt (fsub (float_mean (map (\<lambda>a. as_float64 (array_square a) ! j) arrs))
                           (fsquare (float_mean (map (\<lambda>a. as_float64 a ! j) arrs)))))
       [0..<common_length (map as_float64 arrs)]"

definition mean_curve :: "real list list \<Rightarrow> real list" where
  "mean_curve xss =
     map (\<lambda>j. (\<Sum>xs\<leftarrow>xss. xs ! j) / real (length xss)) [0..<common_length xss]"

definition std_curve :: "real list list \<Rightarrow> real list" where
  "std_curve xss =
     map (\<lambda>j. sqrt ((\<Sum>xs\<leftarrow>xss. (xs ! j) ^ 2) / real (length xss)
                    - ((\<Sum>xs\<leftarrow>xss. xs ! j) / real (length xss)) ^ 2))
       [0..<common_length xss]"

text \<open>
  For grouping: the group-value tuple of a record (the strings of its values at the group
  keys, \<open>None\<close> left out), the list of records found in a nested dictionary at the end of
  a path of keys, and nested dictionaries whose leaves all sit at one depth.
\<close>

definition group_tuple :: "(pyval \<Rightarrow> string) \<Rightarrow> string list \<Rightarrow> Config \<Rightarrow> string list" where
  "group_tuple str_of ks c =
     concat (map (\<lambda>k. case map_of (flattened c) k of
                          None \<Rightarrow> []
                        | Some v \<Rightarrow> if v = PNone then [] else [str_of v]) ks)"

fun leaf_at :: "nested_dict \<Rightarrow> string list \<Rightarrow> Config list option" where
  "leaf_at d [] = None"
| "leaf_at d [k] = (case map_of d k of Some (Leaf xs) \<Rightarrow> Some xs | _ \<Rightarrow> None)"
| "leaf_at d (k # k' # ks) =
     (case map_of d k of Some (Node sub) \<Rightarrow> leaf_at sub (k' # ks) | _ \<Rightarrow> None)"

fun leaves_at_depth :: "nat \<Rightarrow> nested \<Rightarrow> bool" where
  "leaves_at_depth 0 (Leaf xs) = True"
| "leaves_at_depth (Suc n) (Node d) = list_all (\<lambda>kv. leaves_at_depth n (snd kv)) d"
| "leaves_at_depth n t = False"

definition leaf_or_empty :: "nested_dict \<Rightarrow> string list \<Rightarrow> Config list" where
  "leaf_or_empty d p = (case leaf_at d p of None \<Rightarrow> [] | Some xs \<Rightarrow> xs)"

section \<open>Properties of run-directory allocation\<close>

lemma digit_cases: "d < 10 \<Longrightarrow> d \<in> {0, 1, 2, 3, 4, 5, 6, 7, 8, 9 :: nat}"
  by auto

lemma digit_val_digit_char: "d < 10 \<Longrightarrow> digit_val (digit_char d) = d"
  using digit_cases [of d] by (auto simp: digit_val_def digit_char_def digit_chars_def)


lemma digit_char_in: "d < 10 \<Longrightarrow> digit_char d \<in> set digit_chars"
proof -
  assume "d < 10"
  then have "d \<in> {0, 1, 2, 3, 4, 5, 6, 7, 8, 9}" by auto
  then show ?thesis
    by (auto simp: digit_char_def digit_chars_def)
qed

lemma isdigit_str_nat: "isdigit (str_nat n)"
proof (induction n rule: str_nat.induct)
  case (1 n)
  show ?case
  proof (cases "n < 10")
    case True
    then show ?thesis by (subst str_nat.simps) (simp add: isdigit_def digit_char_in)
  next
    case False
    with 1 have "isdigit (str_nat (n div 10))" by simp
    moreover have "digit_char (n mod 10) \<in> set digit_chars" by (rule digit_char_in) simp
    ultimately show ?thesis using False
      by (subst str_nat.simps) (simp add: isdigit_def)
  qed
qed

lemma py_int_snoc: "py_int (s @ [c]) = 10 * py_int s + digit_val c"
  by (simp add: py_int_def)

lemma py_int_str_nat: "py_int (str_nat n) = n"
proof (induction n rule: str_nat.induct)
  case (1 n)
  show ?case
  proof (cases "n < 10")
    case True
    then show ?thesis
      by (subst str_nat.simps) (simp add: py_int_def digit_val_digit_char)
  next
    case False
    with 1 have "py_int (str_nat (n div 10)) = n div 10" by simp
    then show ?thesis using False
      by (subst str_nat.simps) (simp add: py_int_snoc digit_val_digit_char)
  qed
qed

lemma max_list_Max: "xs \<noteq> [] \<Longrightarrow> max_list xs = Max (set xs)"
proof (cases xs)
  case Nil
  assume "xs \<noteq> []"
  with Nil show ?thesis by simp
next
  case (Cons a list)
  then show ?thesis using Max.set_eq_fold [of a list] by simp
qed

lemma maximum_existing_is_max_claimed: "maximum_existing_run_id fs = max_claimed fs"
proof -
  define ds where "ds = map (\<lambda>e. py_int (fst e)) (filter (\<lambda>e. snd e \<and> isdigit (fst e)) fs)"
  have a: "maximum_existing_run_id fs = (if ds \<noteq> [] then max_list ds else 0)"
    by (simp add: maximum_existing_run_id_def ds_def Let_def)
  have b: "claimed_ids fs = set ds"
    by (simp add: claimed_ids_def ds_def)
  show ?thesis
  proof (cases "ds = []")
    case True
    then show ?thesis by (simp add: a b max_claimed_def)
  next
    case False
    then show ?thesis by (simp add: a b max_claimed_def max_list_Max)
  qed
qed

lemma claimed_ids_append_dir:
  "claimed_ids (fs @ [(str_nat k, True)]) = insert k (claimed_ids fs)"
  by (auto simp: claimed_ids_def isdigit_str_nat py_int_str_nat)

lemma finite_claimed: "finite (claimed_ids fs)"
  by (simp add: claimed_ids_def)

lemma max_claimed_append_next:
  "max_claimed (fs @ [(str_nat (max_claimed fs + 1), True)]) = max_claimed fs + 1"
proof -
  let ?m = "max_claimed fs"
  have "max_claimed (fs @ [(str_nat (?m + 1), True)]) = Max (insert (?m + 1) (claimed_ids fs))"
    by (simp add: max_claimed_def claimed_ids_append_dir)
  also have "\<dots> = ?m + 1"
  proof (cases "claimed_ids fs = {}")
    case True
    then show ?thesis by simp
  next
    case False
    then show ?thesis
      by (simp add: max_claimed_def finite_claimed)
  qed
  finally show ?thesis .
qed

lemma dir_named_is_claimed:
  assumes "(str_nat k, True) \<in> set fs"
  shows "k \<le> max_claimed fs"
proof -
  from assms have "k \<in> claimed_ids fs"
    by (force simp: claimed_ids_def isdigit_str_nat py_int_str_nat image_iff)
  then show ?thesis
    by (auto simp: max_claimed_def finite_claimed)
qed

lemma make_run_dir_loop_free:
  assumes "str_nat (max_claimed fs + 1) \<notin> set (map fst fs)"
  shows "make_run_dir_loop rootdir fs c =
     Inr ((max_claimed fs + 1, os_path_join rootdir (str_nat (max_claimed fs + 1))),
          fs @ [(str_nat (max_claimed fs + 1), True)])"
  using assms
  by (subst make_run_dir_loop.simps) (simp add: maximum_existing_is_max_claimed os_mkdir_def)

lemma make_run_dir_loop_taken:
  assumes "str_nat (max_claimed fs + 1) \<in> set (map fst fs)"
  shows "make_run_dir_loop rootdir fs c = Inl FileExistsError"
  using assms
proof (induction rootdir fs c rule: make_run_dir_loop.induct)
  case (1 rootdir fs fail_count)
  then show ?case
    by (subst make_run_dir_loop.simps) (simp add: maximum_existing_is_max_claimed os_mkdir_def)
qed

lemma name_free:
  assumes "\<forall>e\<in>set fs. \<not> snd e \<longrightarrow> fst e \<noteq> str_nat (max_claimed fs + 1)"
  shows "str_nat (max_claimed fs + 1) \<notin> set (map fst fs)"
proof
  assume "str_nat (max_claimed fs + 1) \<in> set (map fst fs)"
  then obtain b where e: "(str_nat (max_claimed fs + 1), b) \<in> set fs" by auto
  show False
  proof (cases b)
    case True
    with e have "max_claimed fs + 1 \<le> max_claimed fs" by (simp add: dir_named_is_claimed)
    then show False by simp
  next
    case False
    with e assms show False by force
  qed
qed

lemma allocate_n_seq:
  assumes "\<forall>e\<in>set fs. \<not> snd e \<longrightarrow> fst e \<notin> str_nat ` {max_claimed fs + 1 .. max_claimed fs + n}"
  shows "allocate_n n rootdir fs =
     Inr (map (\<lambda>i. max_claimed fs + 1 + i) [0..<n],
          fs @ map (\<lambda>i. (str_nat (max_claimed fs + 1 + i), True)) [0..<n])"
  using assms
proof (induction n arbitrary: fs)
  case 0
  then show ?case by simp
next
  case (Suc n)
  let ?m = "max_claimed fs"
  let ?fs' = "fs @ [(str_nat (?m + 1), True)]"
  have free: "str_nat (?m + 1) \<notin> set (map fst fs)"
  proof (rule name_free)
    show "\<forall>e\<in>set fs. \<not> snd e \<longrightarrow> fst e \<noteq> str_nat (?m + 1)"
      using Suc.prems by force
  qed
  have step: "make_run_dir None rootdir fs = Inr ((?m + 1, os_path_join rootdir (str_nat (?m + 1))), ?fs')"
    by (simp add: make_run_dir_def make_run_dir_loop_free [OF free])
  have m': "max_claimed ?fs' = ?m + 1" by (rule max_claimed_append_next)
  have "\<forall>e\<in>set ?fs'. \<not> snd e \<longrightarrow> fst e \<notin> str_nat ` {max_claimed ?fs' + 1 .. max_claimed ?fs' + n}"
  proof
    fix e assume "e \<in> set ?fs'"
    then consider "e \<in> set fs" | "e = (str_nat (?m + 1), True)" by auto
    then show "\<not> snd e \<longrightarrow> fst e \<notin> str_nat ` {max_claimed ?fs' + 1 .. max_claimed ?fs' + n}"
    proof cases
      case 1
      have "{max_claimed ?fs' + 1 .. max_claimed ?fs' + n} \<subseteq> {?m + 1 .. ?m + Suc n}"
        unfolding m' by auto
      with Suc.prems 1 show ?thesis by blast
    next
      case 2
      then show ?thesis by simp
    qed
  qed
  from Suc.IH [OF this]
  have rest: "allocate_n n rootdir ?fs' =
     Inr (map (\<lambda>i. ?m + 1 + 1 + i) [0..<n],
          ?fs' @ map (\<lambda>i. (str_nat (?m + 1 + 1 + i), True)) [0..<n])"
    by (simp only: m')
  have l1: "map (\<lambda>i. ?m + 1 + i) [0..<Suc n] = (?m + 1) # map (\<lambda>i. ?m + 1 + 1 + i) [0..<n]"
    by (simp add: upt_rec [of 0 "Suc n"] map_Suc_upt [symmetric] del: upt_Suc)
  have l2: "map (\<lambda>i. (str_nat (?m + 1 + i), True)) [0..<Suc n]
      = (str_nat (?m + 1), True) # map (\<lambda>i. (str_nat (?m + 1 + 1 + i), True)) [0..<n]"
    by (simp add: upt_rec [of 0 "Suc n"] map_Suc_upt [symmetric] del: upt_Suc)
  have "allocate_n (Suc n) rootdir fs =
      (case allocate_n n rootdir ?fs' of
         Inl e \<Rightarrow> Inl e
       | Inr (ids, fs'') \<Rightarrow> Inr ((?m + 1) # ids, fs''))"
    by (simp only: allocate_n.simps step sum.case prod.case)
  also have "\<dots> = Inr ((?m + 1) # map (\<lambda>i. ?m + 1 + 1 + i) [0..<n],
          ?fs' @ map (\<lambda>i. (str_nat (?m + 1 + 1 + i), True)) [0..<n])"
    by (simp only: rest sum.case prod.case)
  also have "\<dots> = Inr (map (\<lambda>i. ?m + 1 + i) [0..<Suc n],
          fs @ map (\<lambda>i. (str_nat (?m + 1 + i), True)) [0..<Suc n])"
    by (simp only: l1 l2 append_assoc append_Cons append_Nil)
  finally show ?case .
qed


text \<open>
  C7 (amended). Let \<open>m\<close> be the greatest id among the digit-named subdirectories of the
  root (0 when there is none). If no entry of the root that is not a directory is named
  \<open>m + 1\<close>, ..., \<open>m + n\<close>, then \<open>n\<close> allocations in sequence, each with no requested id,
  return \<open>m + 1\<close>, ..., \<open>m + n\<close> in this order and create exactly these directories; for
  \<open>n > 0\<close> the first allocation returns \<open>m + 1\<close> with the path of the new directory.
\<close>

theorem make_run_dir_consecutive:
  assumes "\<forall>e\<in>set fs. \<not> snd e \<longrightarrow> fst e \<notin> str_nat ` {max_claimed fs + 1 .. max_claimed fs + n}"
  shows "(0 < n \<longrightarrow>
            make_run_dir None rootdir fs =
              Inr ((max_claimed fs + 1, os_path_join rootdir (str_nat (max_claimed fs + 1))),
                   fs @ [(str_nat (max_claimed fs + 1), True)]))
         \<and> allocate_n n rootdir fs =
              Inr (map (\<lambda>i. max_claimed fs + 1 + i) [0..<n],
                   fs @ map (\<lambda>i. (str_nat (max_claimed fs + 1 + i), True)) [0..<n])"
proof
  show "0 < n \<longrightarrow>
            make_run_dir None rootdir fs =
              Inr ((max_claimed fs + 1, os_path_join rootdir (str_nat (max_claimed fs + 1))),
                   fs @ [(str_nat (max_claimed fs + 1), True)])"
  proof
    assume "0 < n"
    then have "max_claimed fs + 1 \<in> {max_claimed fs + 1 .. max_claimed fs + n}" by simp
    with assms have "\<forall>e\<in>set fs. \<not> snd e \<longrightarrow> fst e \<noteq> str_nat (max_claimed fs + 1)"
      by blast
    then have "str_nat (max_claimed fs + 1) \<notin> set (map fst fs)" by (rule name_free)
    then show "make_run_dir None rootdir fs =
              Inr ((max_claimed fs + 1, os_path_join rootdir (str_nat (max_claimed fs + 1))),
                   fs @ [(str_nat (max_claimed fs + 1), True)])"
      by (simp add: make_run_dir_def make_run_dir_loop_free)
  qed
  show "allocate_n n rootdir fs =
              Inr (map (\<lambda>i. max_claimed fs + 1 + i) [0..<n],
                   fs @ map (\<lambda>i. (str_nat (max_claimed fs + 1 + i), True)) [0..<n])"
    using assms by (rule allocate_n_seq)
qed

lemma str_nat_digit: "n < 10 \<Longrightarrow> str_nat n = [digit_char n]"
  by (subst str_nat.simps) simp

lemma example_listing_max:
  "max_claimed [(''3'', True), (''notes'', True), (''9'', False), (''05'', True)] = 5"
  by (simp add: max_claimed_def claimed_ids_def isdigit_def digit_chars_def py_int_def digit_val_def)

theorem make_run_dir_consecutive_witness:
  "make_run_dir None ''runs'' [(''3'', True), (''notes'', True), (''9'', False), (''05'', True)]
     = Inr ((6, ''runs/6''),
            [(''3'', True), (''notes'', True), (''9'', False), (''05'', True), (''6'', True)])
   \<and> allocate_n 2 ''runs'' [(''3'', True), (''notes'', True), (''9'', False), (''05'', True)]
     = Inr ([6, 7],
            [(''3'', True), (''notes'', True), (''9'', False), (''05'', True), (''6'', True),
             (''7'', True)])"
proof -
  let ?fs = "[(''3'', True), (''notes'', True), (''9'', False), (''05'', True)]"
  have m: "max_claimed ?fs = 5" by (rule example_listing_max)
  have s6: "str_nat 6 = ''6''" by (simp add: str_nat_digit digit_char_def digit_chars_def)
  have s7: "str_nat 7 = ''7''" by (simp add: str_nat_digit digit_char_def digit_chars_def)
  have iv: "{(6::nat)..7} = {6, 7}" by auto
  have hyp: "\<forall>e\<in>set ?fs. \<not> snd e \<longrightarrow> fst e \<notin> str_nat ` {max_claimed ?fs + 1 .. max_claimed ?fs + 2}"
    by (simp add: m iv s6 s7)
  have up: "[0..<2] = [0, Suc 0]" by (simp add: upt_rec)
  show ?thesis
    using make_run_dir_consecutive [OF hyp, of "''runs''"]
    by (simp add: m s6 s7 up os_path_join_def)
qed

text \<open>
  C7 as stated fails where a plain file already has the next id as its name: the root below
  has no digit-named subdirectory, so the claim promises id 1, but \<open>os.mkdir\<close> fails at
  every attempt and the error is raised once the retries are used up.
\<close>

theorem make_run_dir_counterexample:
  "max_claimed [(''1'', False)] = 0
   \<and> make_run_dir None ''runs'' [(''1'', False)] = Inl FileExistsError"
proof -
  have m: "max_claimed [(''1'', False)] = 0"
    by (simp add: max_claimed_def claimed_ids_def)
  have s1: "str_nat (Suc 0) = ''1''" by (subst str_nat.simps) (simp add: digit_char_def digit_chars_def)
  have "str_nat (max_claimed [(''1'', False)] + 1) \<in> set (map fst [(''1'', False)])"
    by (simp add: m s1)
  then have "make_run_dir_loop ''runs'' [(''1'', False)] 0 = Inl FileExistsError"
    by (rule make_run_dir_loop_taken)
  then show ?thesis by (simp add: m make_run_dir_def)
qed

section \<open>Lazy data\<close>


lemma fold_delete_filter:
  "fold AList.delete ks d = filter (\<lambda>kv. fst kv \<notin> set ks) d"
proof (induction ks arbitrary: d)
  case Nil
  then show ?case by simp
next
  case (Cons k ks)
  have "AList.delete k d = filter (\<lambda>kv. fst kv \<noteq> k) d"
    by (induction d) (auto simp: AList.delete_eq)
  then show ?case
    by (simp add: Cons.IH)
qed

lemma free_unused_restrict:
  "fold AList.delete (filter (\<lambda>k. k \<notin> U) (map fst d)) d = AList.restrict U d"
proof -
  have "filter (\<lambda>kv. fst kv \<notin> set (filter (\<lambda>k. k \<notin> U) (map fst d))) d
      = filter (\<lambda>(k, v). k \<in> U) d"
    by (rule filter_cong) auto
  then show ?thesis
    by (simp add: fold_delete_filter AList.restrict_eq)
qed

lemma LazyData_free_unused_Some:
  "cache ld = Some d \<Longrightarrow>
     LazyData_free_unused ld = Inr (ld\<lparr>cache := Some (AList.restrict (used_keys ld) d)\<rparr>)"
  by (simp add: LazyData_free_unused_def free_unused_restrict)

text \<open>
  C5. For a LazyData object whose cache has been loaded, \<open>free_unused\<close> succeeds and
  leaves exactly the cached keys that are in \<open>used_keys\<close>, each with its value: every
  untouched key is dropped and every touched key survives. A later \<open>get_data\<close> of an
  untouched key opens the backing file again (the log grows by its path), puts the full
  content back into the cache, marks the key as used and returns the file's value for it;
  no \<open>KeyError\<close> is raised as long as the file still holds the key. The witness is the
  claim's case: cached keys loss and acc of the file \<open>metrics\<close>, only loss touched.
\<close>

theorem free_unused_then_reload:
  assumes "cache ld = Some d"
      and "key \<notin> used_keys ld"
      and "map_of (load_dict_from_json fs (path ld) (file_name ld)) key = Some v"
  shows "LazyData_free_unused ld = Inr (ld\<lparr>cache := Some (AList.restrict (used_keys ld) d)\<rparr>)
       \<and> set (map fst (AList.restrict (used_keys ld) d)) = set (map fst d) \<inter> used_keys ld
       \<and> (\<forall>k\<in>used_keys ld. map_of (AList.restrict (used_keys ld) d) k = map_of d k)
       \<and> LazyData_get_data fs (ld\<lparr>cache := Some (AList.restrict (used_keys ld) d)\<rparr>) key lg
           = (Inr v,
              ld\<lparr>cache := Some (load_dict_from_json fs (path ld) (file_name ld)),
                 used_keys := insert key (used_keys ld)\<rparr>,
              lg @ [path ld])"
proof (intro conjI)
  show "LazyData_free_unused ld = Inr (ld\<lparr>cache := Some (AList.restrict (used_keys ld) d)\<rparr>)"
    using assms(1) by (rule LazyData_free_unused_Some)
  show "set (map fst (AList.restrict (used_keys ld) d)) = set (map fst d) \<inter> used_keys ld"
    by simp
  show "\<forall>k\<in>used_keys ld. map_of (AList.restrict (used_keys ld) d) k = map_of d k"
    by simp
  show "LazyData_get_data fs (ld\<lparr>cache := Some (AList.restrict (used_keys ld) d)\<rparr>) key lg
           = (Inr v,
              ld\<lparr>cache := Some (load_dict_from_json fs (path ld) (file_name ld)),
                 used_keys := insert key (used_keys ld)\<rparr>,
              lg @ [path ld])"
    using assms(2,3)
    by (simp add: LazyData_get_data_def LazyData_reload_def dict_getitem_def)
qed

lemma ex_load:
  "load_dict_from_json ex_fs ''runs/1/metrics.json'' ''metrics''
     = [(''metrics.loss'', PList [PFloat 1, PFloat 3]), (''metrics.acc'', PList [PFloat 2, PFloat 4])]"
  by (simp add: load_dict_from_json_def ex_fs_def ex_file_def add_point_def)


lemma ex_lazy_reached:
  "LazyData_get_data ex_fs (LazyData_init ''runs/1'' ''metrics'') ''metrics.loss'' []
     = (Inr (PList [PFloat 1, PFloat 3]), ex_lazy, [''runs/1/metrics.json''])"
  by (simp add: LazyData_get_data_def LazyData_reload_def LazyData_init_def os_path_join_def
        ex_load ex_lazy_def dict_getitem_def)

theorem free_unused_then_reload_witness:
  "LazyData_free_unused ex_lazy
     = Inr (ex_lazy\<lparr>cache := Some [(''metrics.loss'', PList [PFloat 1, PFloat 3])]\<rparr>)
   \<and> LazyData_get_data ex_fs
        (ex_lazy\<lparr>cache := Some [(''metrics.loss'', PList [PFloat 1, PFloat 3])]\<rparr>)
        ''metrics.acc'' []
     = (Inr (PList [PFloat 2, PFloat 4]),
        ex_lazy\<lparr>cache := Some [(''metrics.loss'', PList [PFloat 1, PFloat 3]),
                                (''metrics.acc'', PList [PFloat 2, PFloat 4])],
                used_keys := {''metrics.acc'', ''metrics.loss''}\<rparr>,
        [''runs/1/metrics.json''])"
proof -
  have c: "cache ex_lazy = Some [(''metrics.loss'', PList [PFloat 1, PFloat 3]),
                             (''metrics.acc'', PList [PFloat 2, PFloat 4])]"
    by (simp add: ex_lazy_def)
  have u: "''metrics.acc'' \<notin> used_keys ex_lazy" by (simp add: ex_lazy_def)
  have f: "map_of (load_dict_from_json ex_fs (path ex_lazy) (file_name ex_lazy)) ''metrics.acc''
             = Some (PList [PFloat 2, PFloat 4])"
    by (simp add: ex_lazy_def ex_load)
  have r: "AList.restrict {''metrics.loss''}
             [(''metrics.loss'', PList [PFloat 1, PFloat 3]), (''metrics.acc'', PList [PFloat 2, PFloat 4])]
           = [(''metrics.loss'', PList [PFloat 1, PFloat 3])]"
    by (simp add: AList.restrict_eq)
  have p: "path ex_lazy = ''runs/1/metrics.json''" and k: "used_keys ex_lazy = {''metrics.loss''}"
    and n: "file_name ex_lazy = ''metrics''"
    by (simp_all add: ex_lazy_def)
  from free_unused_then_reload [OF c u f, of "[]"] show ?thesis
    by (simp add: p k n r ex_load)
qed

section \<open>Unmaterialized lazy fields\<close>

lemma LazyData_free_unused_error:
  "LazyData_free_unused ld = Inl e \<Longrightarrow> e = AttributeError \<and> cache ld = None"
  by (auto simp: LazyData_free_unused_def Let_def split: option.splits)

lemma free_unused_all_unloaded:
  "(p, ld) \<in> set lds \<Longrightarrow> cache ld = None \<Longrightarrow> free_unused_all lds = Inl AttributeError"
proof (induction lds)
  case Nil
  then show ?case by simp
next
  case (Cons a lds)
  obtain k l where a: "a = (k, l)" by (cases a)
  show ?case
  proof (cases "LazyData_free_unused l")
    case (Inl e)
    then show ?thesis using LazyData_free_unused_error [OF Inl] by (simp add: a)
  next
    case (Inr l')
    then have "cache l \<noteq> None" by (auto simp: LazyData_free_unused_def split: option.splits)
    with Cons.prems a have "(p, ld) \<in> set lds" by auto
    with Cons have "free_unused_all lds = Inl AttributeError" by simp
    then show ?thesis by (simp add: a Inr)
  qed
qed

lemma Config_free_unused_unloaded:
  "(p, ld) \<in> set (lazydata_dict c) \<Longrightarrow> cache ld = None \<Longrightarrow> Config_free_unused c = Inl AttributeError"
  by (simp add: Config_free_unused_def free_unused_all_unloaded)

lemma update_other_keeps:
  "(p, x) \<in> set al \<Longrightarrow> q \<noteq> p \<Longrightarrow> (p, x) \<in> set (AList.update q y al)"
  by (induction al) auto

lemma Config_getitem_frame:
  assumes "Config_getitem fs c key lg = (r, c', lg')"
      and "(p, ld) \<in> set (lazydata_dict c)"
      and "map_of (lazy c) key \<noteq> Some (Callable p)"
  shows "(p, ld) \<in> set (lazydata_dict c') \<and> lazy c' = lazy c"
  using assms
  by (auto simp: Config_getitem_def update_other_keeps
           split: option.splits lazyval.splits prod.splits)

lemma read_keys_frame:
  assumes "read_keys fs c ks acc lg = (r, c', lg')"
      and "(p, ld) \<in> set (lazydata_dict c)"
      and "\<forall>k\<in>set ks. map_of (lazy c) k \<noteq> Some (Callable p)"
  shows "(p, ld) \<in> set (lazydata_dict c')"
  using assms
proof (induction ks arbitrary: c acc lg)
  case Nil
  then show ?case by simp
next
  case (Cons k ks)
  obtain r1 c1 lg1 where g: "Config_getitem fs c k lg = (r1, c1, lg1)"
    by (cases "Config_getitem fs c k lg") auto
  from Cons.prems have nk: "map_of (lazy c) k \<noteq> Some (Callable p)" by simp
  from Config_getitem_frame [OF g Cons.prems(2) nk]
  have keep: "(p, ld) \<in> set (lazydata_dict c1)" and same: "lazy c1 = lazy c" by simp_all
  show ?case
  proof (cases r1)
    case (Inl e)
    with Cons.prems(1) g keep show ?thesis by simp
  next
    case (Inr v)
    with Cons.prems(1) g have "read_keys fs c1 ks (AList.update k v acc) lg1 = (r, c', lg')" by simp
    moreover have "\<forall>k\<in>set ks. map_of (lazy c1) k \<noteq> Some (Callable p)"
      using Cons.prems(3) same by simp
    ultimately show ?thesis using Cons.IH keep by blast
  qed
qed

lemma extract_rows_unloaded:
  assumes "c \<in> set cs"
      and "(p, ld) \<in> set (lazydata_dict c)"
      and "cache ld = None"
      and "\<forall>k\<in>set ks. map_of (lazy c) k \<noteq> Some (Callable p)"
  shows "\<exists>e lg'. extract_rows fs cs ks lg = (Inl e, lg')"
  using assms(1)
proof (induction cs arbitrary: lg)
  case Nil
  then show ?case by simp
next
  case (Cons a cs)
  obtain r1 c1 lg1 where rk: "read_keys fs a ks [] lg = (r1, c1, lg1)"
    by (cases "read_keys fs a ks [] lg") auto
  show ?case
  proof (cases r1)
    case (Inl e)
    with rk show ?thesis by simp
  next
    case (Inr row)
    show ?thesis
    proof (cases "Config_free_unused c1")
      case (Inl e)
      with rk Inr show ?thesis by simp
    next
      case fr: (Inr c2)
      have "a \<noteq> c"
      proof
        assume "a = c"
        with rk assms have "(p, ld) \<in> set (lazydata_dict c1)"
          using read_keys_frame by blast
        then have "Config_free_unused c1 = Inl AttributeError"
          using assms(3) by (simp add: Config_free_unused_unloaded)
        with fr show False by simp
      qed
      with Cons.prems have "c \<in> set cs" by simp
      from Cons.IH [OF this] obtain e lg' where "extract_rows fs cs ks lg1 = (Inl e, lg')" by blast
      with rk Inr fr show ?thesis by simp
    qed
  qed
qed

text \<open>
  C10. If a record owns a LazyData object whose cache was never loaded, \<open>free_unused\<close> on
  the record raises \<open>AttributeError\<close>. \<open>_aggregate_collection\<close> calls it on every record
  after reading only the keys the maps ask for, so the aggregation of a group that holds
  such a record raises as well, unless one of the requested keys reads through that very
  object (and so loads it).
\<close>

theorem free_unused_needs_materialized:
  assumes "(p, ld) \<in> set (lazydata_dict c)"
      and "cache ld = None"
  shows "Config_free_unused c = Inl AttributeError
       \<and> (c \<in> set cs \<and> (\<forall>k\<in>set (extract_keys_from_maps agg_maps). map_of (lazy c) k \<noteq> Some (Callable p))
            \<longrightarrow> (\<exists>e lg'. aggregate_collection fs cs agg_maps lg = (Inl e, lg')))"
proof
  show "Config_free_unused c = Inl AttributeError"
    using assms by (rule Config_free_unused_unloaded)
  show "c \<in> set cs \<and> (\<forall>k\<in>set (extract_keys_from_maps agg_maps). map_of (lazy c) k \<noteq> Some (Callable p))
            \<longrightarrow> (\<exists>e lg'. aggregate_collection fs cs agg_maps lg = (Inl e, lg'))"
  proof
    assume h: "c \<in> set cs \<and> (\<forall>k\<in>set (extract_keys_from_maps agg_maps). map_of (lazy c) k \<noteq> Some (Callable p))"
    then obtain e lg' where "extract_rows fs cs (extract_keys_from_maps agg_maps) lg = (Inl e, lg')"
      using extract_rows_unloaded [OF _ assms] by blast
    then show "\<exists>e lg'. aggregate_collection fs cs agg_maps lg = (Inl e, lg')"
      by (simp add: aggregate_collection_def)
  qed
qed


theorem free_unused_needs_materialized_witness:
  "Config_free_unused ex_unread = Inl AttributeError
   \<and> (\<exists>e lg'. aggregate_collection ex_fs [ex_unread] [Min_init ''x''] [] = (Inl e, lg'))"
proof -
  have a: "(''metrics'', LazyData_init ''runs/1'' ''metrics'') \<in> set (lazydata_dict ex_unread)"
    by (simp add: ex_unread_def)
  have b: "cache (LazyData_init ''runs/1'' ''metrics'') = None"
    by (simp add: LazyData_init_def)
  have c: "ex_unread \<in> set [ex_unread]
       \<and> (\<forall>k\<in>set (extract_keys_from_maps [Min_init ''x'']).
             map_of (lazy ex_unread) k \<noteq> Some (Callable ''metrics''))"
    by (simp add: extract_keys_from_maps_def Min_init_def ex_unread_def)
  from free_unused_needs_materialized [OF a b, of "[ex_unread]" "[Min_init ''x'']" ex_fs "[]"] c
  show ?thesis by blast
qed

section \<open>Validation of aggregation maps\<close>

lemma assert_valid_maps_invalid:
  "\<exists>shown. OtherObject shown \<in> set objs \<Longrightarrow>
   \<exists>shown. OtherObject shown \<in> set objs
      \<and> assert_valid_maps objs =
          Inl (InvalidAggregationMapError
                 (''The map '' @ shown @ '' must be an instance of a child class of  ''
                    @ str_AggregationMap))"
proof (induction objs)
  case Nil
  then show ?case by simp
next
  case (Cons a objs)
  show ?case
  proof (cases a)
    case (MapObject m)
    with Cons.prems have "\<exists>shown. OtherObject shown \<in> set objs" by auto
    from Cons.IH [OF this] show ?thesis by (auto simp: MapObject)
  next
    case (OtherObject shown)
    then show ?thesis by auto
  qed
qed

text \<open>
  C6. If the list handed to \<open>GroupedConfigs.aggregate\<close> holds an object that is not an
  aggregation map, the call raises \<open>InvalidAggregationMapError\<close> with a message that names
  such an object and the base class \<open>AggregationMap\<close>, and the log of opened files is the
  one it started with: nothing was read. In the witness the group holds a record whose
  data has not been loaded, and the first object of the list is a valid map.
\<close>

theorem aggregate_rejects_invalid_map:
  assumes "\<exists>shown. OtherObject shown \<in> set objs"
  shows "\<exists>shown. OtherObject shown \<in> set objs
      \<and> GroupedConfigs_aggregate fs self objs lg =
          (Inl (InvalidAggregationMapError
                  (''The map '' @ shown @ '' must be an instance of a child class of  ''
                     @ str_AggregationMap)),
           lg)"
proof -
  from assert_valid_maps_invalid [OF assms] obtain shown where
    "OtherObject shown \<in> set objs"
    "assert_valid_maps objs =
          Inl (InvalidAggregationMapError
                 (''The map '' @ shown @ '' must be an instance of a child class of  ''
                    @ str_AggregationMap))"
    by blast
  then show ?thesis by (auto simp: GroupedConfigs_aggregate_def)
qed

theorem aggregate_rejects_invalid_map_witness:
  "GroupedConfigs_aggregate ex_fs ex_grouped
      [MapObject (Min_init ''metrics.loss''), OtherObject ''<built-in function min>''] []
     = (Inl (InvalidAggregationMapError
               (''The map <built-in function min> must be an instance of a child class of  ''
                  @ str_AggregationMap)),
        [])"
proof -
  have "\<exists>shown. OtherObject shown
          \<in> set [MapObject (Min_init ''metrics.loss''), OtherObject ''<built-in function min>'']"
    by simp
  from aggregate_rejects_invalid_map [OF this, of ex_fs ex_grouped "[]"]
  show ?thesis by auto
qed

section \<open>Grouping, differences and the Last map on concrete input\<close>


lemma Config_init_eager:
  "LAZYDATA \<notin> snd ` set d \<Longrightarrow> Config_init d pdir = Inr (eager_config d)"
proof -
  assume "LAZYDATA \<notin> snd ` set d"
  then have "filter (\<lambda>kv. snd kv = LAZYDATA) d = []"
    by (force simp: filter_empty_conv)
  then show ?thesis by (simp add: Config_init_def eager_config_def)
qed

lemma Config_init_lazy:
  "LAZYDATA \<in> snd ` set d \<Longrightarrow> Config_init d pdir = Inl AttributeError"
proof -
  assume "LAZYDATA \<in> snd ` set d"
  then have "filter (\<lambda>kv. snd kv = LAZYDATA) d \<noteq> []"
    by (force simp: filter_empty_conv)
  then show ?thesis by (simp add: Config_init_def)
qed

lemma check_valid_keys_method:
  "ks \<noteq> [] \<Longrightarrow> check_valid_keys KeysMethod ks = Inl TypeError"
  by (cases ks) (simp_all add: check_valid_key_def)

lemma groupBy_always_raises: "\<exists>e. ConfigList_groupBy str_of cs ks = Inl e"
  by (auto simp: ConfigList_groupBy_def split: sum.splits prod.splits)

text \<open>
  C1. The claim is that \<open>group_by\<close> on valid keys returns groups that partition the runs.
  On two records with the column \<open>a\<close>, grouped by \<open>a\<close>, \<open>ConfigList.groupBy\<close> raises
  \<open>TypeError\<close> in its validation loop and returns no groups (by \<open>groupBy_always_raises\<close>
  it never does).
\<close>

theorem groupBy_valid_key_raises:
  "ConfigList_groupBy str_of
     [eager_config [(''a'', PStr ''x'')], eager_config [(''a'', PStr ''y'')]] [''a'']
   = Inl TypeError"
  by (simp add: ConfigList_groupBy_def check_valid_key_def)

text \<open>
  C4. The claim is that an unknown key makes \<open>group_by\<close> raise the invalid-key error,
  naming the key and listing the columns. On a record with the single column \<open>a\<close> and the
  key \<open>b\<close>, \<open>ConfigList.groupBy\<close> raises \<open>TypeError\<close>; \<open>_check_valid_key\<close>, handed the
  list of columns instead of the method, raises the error the claim describes.
\<close>

theorem groupBy_invalid_key_raises_TypeError:
  "ConfigList_groupBy str_of [eager_config [(''a'', PInt 1)]] [''b''] = Inl TypeError
   \<and> check_valid_key (KeysList (ConfigList_keys [eager_config [(''a'', PInt 1)]])) ''b''
       = Inl (InvalidKeyError
                (''The provided key b is invalid! Valid keys are: ['' @ [CHR 0x27] @ ''a''
                   @ [CHR 0x27] @ '']''))"
  by (simp add: ConfigList_groupBy_def check_valid_key_def ConfigList_keys_def eager_config_def
        str_list_def)

text \<open>
  C8. The claim is that \<open>diff(prefix)\<close> returns only keys that start with the prefix and
  whose value varies, so nothing for identical runs. On two identical records
  \<open>config_diff\<close> returns the key that does not start with the prefix.
\<close>

theorem config_diff_reports_other_keys:
  "ConfigList_config_diff fs
     [eager_config [(''metadata.custom.lr'', PInt 1), (''metadata.seed'', PInt 0)],
      eager_config [(''metadata.custom.lr'', PInt 1), (''metadata.seed'', PInt 0)]]
     ''metadata.custom'' lg
   = (Inr [''metadata.seed''], lg)"
  by (simp add: ConfigList_config_diff_def eager_config_def Config_contains_def
        Config_getitem_def startswith_def append_new_def)

text \<open>
  C9. The claim is that a leaf group aggregated with \<open>Last(f)\<close> gives each run's final
  element under \<open>last(f)\<close>. \<open>_aggregate_collection\<close> with \<open>Last(f)\<close> on one record whose
  \<open>f\<close> is \<open>[1, 2]\<close> raises \<open>TypeError\<close>, because \<open>Last.apply\<close> receives the list of all
  the runs' dictionaries; on that run's dictionary alone it returns \<open>{last(f): 2}\<close>.
\<close>

theorem Last_aggregation_raises:
  "aggregate_collection fs [eager_config [(''f'', PList [PInt 1, PInt 2])]] [Last_init ''f''] lg
     = (Inl TypeError, lg)
   \<and> Last_apply (Last_init ''f'') (ArgDict [(''f'', PList [PInt 1, PInt 2])])
     = Inr [(''last(f)'', PInt 2)]"
  by (simp add: aggregate_collection_def extract_keys_from_maps_def Last_init_def eager_config_def
        Config_getitem_def Config_free_unused_def apply_and_unpack_def Last_apply_def
        list_getitem_def dict_getitem_def make_name_def)

lemma aggregate_raises_with_maps:
  "maps \<noteq> [] \<Longrightarrow> \<exists>e lg'. aggregate fs groupedconfigs maps lg = (Inl e, lg')"
  by (auto simp: aggregate_def split: prod.splits sum.splits)

lemma Last_always_raises:
  "\<exists>e lg'. aggregate_collection fs cs [Last_init key] lg = (Inl e, lg')"
  by (auto simp: aggregate_collection_def apply_and_unpack_def Last_init_def Last_apply_def
           list_getitem_def split: prod.splits sum.splits)

section \<open>Min and Max over a leaf group\<close>


lemma nan_scan_None:
  "nan_scan better xs i best = None \<longleftrightarrow> best = None \<and> (\<forall>x\<in>set xs. x = None)"
  by (induction better xs i best rule: nan_scan.induct) auto

lemma first_best_snoc_NaN:
  "first_best better pre j b \<Longrightarrow> first_best better (pre @ [None]) j b"
  by (auto simp: first_best_def nth_append less_Suc_eq)

lemma first_best_snoc_keep:
  "first_best better pre j b \<Longrightarrow> \<not> better x b \<Longrightarrow> first_best better (pre @ [Some x]) j b"
  by (auto simp: first_best_def nth_append less_Suc_eq)

lemma first_best_snoc_new:
  assumes irr: "\<And>a. \<not> better a a"
      and tr: "\<And>a b c. better a b \<Longrightarrow> better b c \<Longrightarrow> better a c"
      and wk: "\<And>a b c. better a b \<Longrightarrow> better a c \<or> better c b"
      and fb: "first_best better pre j b" and bx: "better x b"
  shows "first_best better (pre @ [Some x]) (length pre) x"
  unfolding first_best_def
proof (intro conjI allI impI)
  show "length pre < length (pre @ [Some x])" by simp
  show "(pre @ [Some x]) ! length pre = Some x" by simp
next
  fix k y assume k: "k < length (pre @ [Some x])" and y: "(pre @ [Some x]) ! k = Some y"
  show "\<not> better y x"
  proof (cases "k < length pre")
    case True
    with y have "pre ! k = Some y" by (simp add: nth_append)
    with fb True have "\<not> better y b" by (auto simp: first_best_def)
    with tr bx show ?thesis by blast
  next
    case False
    with k have "k = length pre" by simp
    with y have "y = x" by simp
    with irr show ?thesis by simp
  qed
next
  fix k y assume k: "k < length pre" and y: "(pre @ [Some x]) ! k = Some y"
  then have "pre ! k = Some y" by (simp add: nth_append)
  with fb k have "\<not> better y b" by (auto simp: first_best_def)
  with wk [OF bx, of y] show "better x y" by blast
qed

lemma first_best_first:
  "(\<forall>x\<in>set pre. x = None) \<Longrightarrow> (\<And>a. \<not> better a a) \<Longrightarrow>
     first_best better (pre @ [Some x]) (length pre) x"
proof -
  assume n: "\<forall>x\<in>set pre. x = None" and irr: "\<And>a. \<not> better a a"
  have none: "\<And>k. k < length pre \<Longrightarrow> pre ! k = None"
    using n nth_mem by blast
  show ?thesis
    unfolding first_best_def
    by (auto simp: nth_append irr none)
qed

lemma nan_scan_Some:
  assumes irr: "\<And>a. \<not> better a a"
      and tr: "\<And>a b c. better a b \<Longrightarrow> better b c \<Longrightarrow> better a c"
      and wk: "\<And>a b c. better a b \<Longrightarrow> better a c \<or> better c b"
  shows "nan_scan better xs (length pre) best = Some (i, v) \<Longrightarrow>
         (case best of None \<Rightarrow> (\<forall>x\<in>set pre. x = None) | Some (j, b) \<Rightarrow> first_best better pre j b) \<Longrightarrow>
         first_best better (pre @ xs) i v"
proof (induction xs arbitrary: pre best)
  case Nil
  then show ?case by (auto split: option.splits)
next
  case (Cons x xs)
  have len: "Suc (length pre) = length (pre @ [x])" by simp
  have app: "pre @ x # xs = (pre @ [x]) @ xs" by simp
  show ?case
  proof (cases x)
    case None
    from Cons.prems(1) have s: "nan_scan better xs (length (pre @ [x])) best = Some (i, v)"
      by (simp add: None)
    have "case best of None \<Rightarrow> (\<forall>y\<in>set (pre @ [x]). y = None)
            | Some (j, b) \<Rightarrow> first_best better (pre @ [x]) j b"
      using Cons.prems(2) by (auto simp: None first_best_snoc_NaN split: option.splits)
    from Cons.IH [OF s this] show ?thesis by (simp only: app)
  next
    case (Some a)
    show ?thesis
    proof (cases best)
      case None
      from Cons.prems(1) have s: "nan_scan better xs (length (pre @ [x])) (Some (length pre, a)) = Some (i, v)"
        by (simp add: Some None)
      have "case Some (length pre, a) of None \<Rightarrow> (\<forall>y\<in>set (pre @ [x]). y = None)
            | Some (j, b) \<Rightarrow> first_best better (pre @ [x]) j b"
        using Cons.prems(2) irr by (simp add: None Some first_best_first)
      from Cons.IH [OF s this] show ?thesis by (simp only: app)
    next
      case best: (Some jb)
      obtain j b where jb: "jb = (j, b)" by (cases jb)
      from Cons.prems(2) have fb: "first_best better pre j b" by (simp add: best jb)
      show ?thesis
      proof (cases "better a b")
        case True
        from Cons.prems(1) have s: "nan_scan better xs (length (pre @ [x])) (Some (length pre, a)) = Some (i, v)"
          by (simp add: Some best jb True)
        have "first_best better (pre @ [x]) (length pre) a"
          unfolding Some using irr tr wk fb True by (rule first_best_snoc_new)
        then have "case Some (length pre, a) of None \<Rightarrow> (\<forall>y\<in>set (pre @ [x]). y = None)
            | Some (j, b) \<Rightarrow> first_best better (pre @ [x]) j b" by simp
        from Cons.IH [OF s this] show ?thesis by (simp only: app)
      next
        case False
        from Cons.prems(1) have s: "nan_scan better xs (length (pre @ [x])) (Some (j, b)) = Some (i, v)"
          by (simp add: Some best jb False)
        have "first_best better (pre @ [x]) j b"
          unfolding Some using fb False by (rule first_best_snoc_keep)
        then have "case Some (j, b) of None \<Rightarrow> (\<forall>y\<in>set (pre @ [x]). y = None)
            | Some (j, b) \<Rightarrow> first_best better (pre @ [x]) j b" by simp
        from Cons.IH [OF s this] show ?thesis by (simp only: app)
      qed
    qed
  qed
qed

lemma nan_scan_min:
  assumes "nan_scan (\<lambda>x b. x < b) xs 0 None = Some (i, v)"
  shows "first_best (\<lambda>x b. x < b) xs i v"
proof -
  have irr: "\<And>a::real. \<not> a < a" by simp
  have tr: "\<And>a b c::real. a < b \<Longrightarrow> b < c \<Longrightarrow> a < c" by simp
  have wk: "\<And>a b c::real. a < b \<Longrightarrow> a < c \<or> c < b" by linarith
  have "first_best (\<lambda>x b. x < b) ([] @ xs) i v"
    by (rule nan_scan_Some [where better = "\<lambda>x b. x < b" and best = None, OF irr tr wk])
       (use assms in simp_all)
  then show ?thesis by simp
qed

lemma nan_scan_max:
  assumes "nan_scan (\<lambda>x b. x > b) xs 0 None = Some (i, v)"
  shows "first_best (\<lambda>x b. x > b) xs i v"
proof -
  have irr: "\<And>a::real. \<not> a > a" by simp
  have tr: "\<And>a b c::real. a > b \<Longrightarrow> b > c \<Longrightarrow> a > c" by simp
  have wk: "\<And>a b c::real. a > b \<Longrightarrow> a > c \<or> c > b" by linarith
  have "first_best (\<lambda>x b. x > b) ([] @ xs) i v"
    by (rule nan_scan_Some [where better = "\<lambda>x b. x > b" and best = None, OF irr tr wk])
       (use assms in simp_all)
  then show ?thesis by simp
qed


lemma extract_rows_eager:
  assumes "map (\<lambda>c. map_of (lazy c) f) cs = map (\<lambda>v. Some (Eager v)) vs"
      and "\<forall>c\<in>set cs. Config_free_unused c = Inr c"
  shows "extract_rows fs cs [f] lg = (Inr (map (\<lambda>v. [(f, v)]) vs, cs), lg)"
  using assms
proof (induction cs arbitrary: vs)
  case Nil
  then show ?case by simp
next
  case (Cons c cs)
  from Cons.prems(1) obtain v vs' where vs: "vs = v # vs'"
    and v: "map_of (lazy c) f = Some (Eager v)"
    and rest: "map (\<lambda>c. map_of (lazy c) f) cs = map (\<lambda>v. Some (Eager v)) vs'"
    by (cases vs) auto
  from Cons.prems(2) have fr: "Config_free_unused c = Inr c"
    and fr': "\<forall>c\<in>set cs. Config_free_unused c = Inr c" by simp_all
  from Cons.IH [OF rest fr']
  have "extract_rows fs cs [f] lg = (Inr (map (\<lambda>v. [(f, v)]) vs', cs), lg)" .
  then show ?case
    by (simp add: vs Config_getitem_def v fr)
qed

lemma select_key_rows: "select_key f (map (\<lambda>v. [(f, v)]) vs) = Inr vs"
  by (induction vs) (simp_all add: dict_getitem_def)

lemma all_int64_length: "all_int64 vs = Some zs \<Longrightarrow> length zs = length vs"
  by (induction vs arbitrary: zs rule: all_int64.induct) (auto split: if_splits)

lemma all_float64_length: "all_float64 vs = Some xs \<Longrightarrow> length xs = length vs"
  by (induction vs arbitrary: xs) (auto split: option.splits)

lemma np_asarray_length: "np_asarray vs = Inr a \<Longrightarrow> length (as_float64 a) = length vs"
  by (auto simp: np_asarray_def all_int64_length all_float64_length split: option.splits if_splits)

lemma float_entries_length: "float_entries ys = Inr xs \<Longrightarrow> length xs = length ys"
  by (induction ys arbitrary: xs rule: float_entries.induct) (auto split: sum.splits)

lemma array_entries_length: "array_entries a = Inr xs \<Longrightarrow> length xs = length (as_float64 a)"
  by (cases a) (auto simp: float_entries_length)

lemma np_entries_length: "np_entries vs = Inr xs \<Longrightarrow> length xs = length vs"
  by (auto simp: np_entries_def array_entries_length np_asarray_length split: sum.splits)

lemma list_getitem_nat: "i < length xs \<Longrightarrow> list_getitem xs (int i) = Inr (xs ! i)"
  by (simp add: list_getitem_def)

lemma list_getitem_last: "xs \<noteq> [] \<Longrightarrow> list_getitem xs (- 1) = Inr (last xs)"
proof (cases xs)
  case Nil
  assume "xs \<noteq> []"
  with Nil show ?thesis by simp
next
  case (Cons a as)
  have "last (a # as) = (a # as) ! length as" by (simp add: last_conv_nth)
  then show ?thesis
    by (simp add: Cons list_getitem_def)
qed

lemma list_getitem_head: "list_getitem (x # xs) 0 = Inr x"
  by (simp add: list_getitem_def)

lemma arg_apply_found:
  assumes "keys m = [f]" and "nanarg vs = Inr (int i)" and "i < length vs"
  shows "arg_apply nanarg m (map (\<lambda>v. [(f, v)]) vs) = Inr ([(make_name m, vs ! i)], int i)"
  using assms
  by (simp add: arg_apply_def select_key_rows list_getitem_nat list_getitem_head)

lemma arg_apply_fallback:
  assumes "keys m = [f]" and "nanarg vs = Inl ValueError" and "vs \<noteq> []"
  shows "arg_apply nanarg m (map (\<lambda>v. [(f, v)]) vs) = Inr ([(make_name m, last vs)], - 1)"
  using assms
  by (simp add: arg_apply_def select_key_rows list_getitem_last list_getitem_head)

lemma min_name: "make_name (Min_init f) = ''min('' @ f @ '')''"
  by (simp add: make_name_def Min_init_def)

lemma max_name: "make_name (Max_init f) = ''max('' @ f @ '')''"
  by (simp add: make_name_def Max_init_def)

text \<open>One map of kind Min or Max over a group whose records hold concrete scalars.\<close>

lemma aggregate_collection_arg:
  assumes cs: "cs \<noteq> []"
      and vals: "map (\<lambda>c. map_of (lazy c) f) cs = map (\<lambda>v. Some (Eager v)) vs"
      and arr: "np_entries vs = Inr xs"
      and fr: "\<forall>c\<in>set cs. Config_free_unused c = Inr c"
      and m: "keys m = [f]"
      and app: "apply_and_unpack m = (\<lambda>rows. case arg_apply nanarg m rows of
                   Inl e \<Rightarrow> Inl e | Inr (agg_val, index) \<Rightarrow> Inr (agg_val, Some index))"
      and nanarg: "nanarg vs = (case nan_scan better xs 0 None of
                      None \<Rightarrow> Inl ValueError | Some (i, x) \<Rightarrow> Inr (int i))"
      and scan: "\<And>i b. nan_scan better xs 0 None = Some (i, b) \<Longrightarrow> first_best better xs i b"
  shows "if \<forall>x\<in>set xs. x = None
         then aggregate_collection fs cs [m] lg
                = (Inr [(make_name m, [Config_update (last cs) [(make_name m, last vs)]])], lg)
         else \<exists>i b. first_best better xs i b
                \<and> aggregate_collection fs cs [m] lg
                    = (Inr [(make_name m, [Config_update (cs ! i) [(make_name m, vs ! i)]])], lg)"
proof -
  have len: "length vs = length cs"
    using vals by (metis length_map)
  have lenx: "length xs = length vs" using arr by (rule np_entries_length)
  have ex: "extract_rows fs cs (extract_keys_from_maps [m]) lg = (Inr (map (\<lambda>v. [(f, v)]) vs, cs), lg)"
    using extract_rows_eager [OF vals fr] by (simp add: extract_keys_from_maps_def m)
  have vs: "vs \<noteq> []" using cs len by auto
  show ?thesis
  proof (cases "\<forall>x\<in>set xs. x = None")
    case True
    then have "nan_scan better xs 0 None = None" by (simp add: nan_scan_None)
    then have "nanarg vs = Inl ValueError" by (simp add: nanarg)
    from arg_apply_fallback [of m f nanarg vs, OF m this vs]
    have "apply_and_unpack m (map (\<lambda>v. [(f, v)]) vs) = Inr ([(make_name m, last vs)], Some (- 1))"
      by (simp add: app)
    then have "aggregate_collection fs cs [m] lg
                = (Inr [(make_name m, [Config_update (last cs) [(make_name m, last vs)]])], lg)"
      by (simp add: aggregate_collection_def ex list_getitem_last [OF cs])
    with True show ?thesis by simp
  next
    case False
    then have "nan_scan better xs 0 None \<noteq> None" by (simp add: nan_scan_None)
    then obtain i b where s: "nan_scan better xs 0 None = Some (i, b)" by auto
    from scan [OF s] have fb: "first_best better xs i b" .
    then have i: "i < length vs" by (simp add: first_best_def lenx)
    have "nanarg vs = Inr (int i)" by (simp add: nanarg s)
    from arg_apply_found [of m f nanarg vs i, OF m this i]
    have "apply_and_unpack m (map (\<lambda>v. [(f, v)]) vs) = Inr ([(make_name m, vs ! i)], Some (int i))"
      by (simp add: app)
    moreover have "list_getitem cs (int i) = Inr (cs ! i)"
      using i len by (simp add: list_getitem_nat)
    ultimately have "aggregate_collection fs cs [m] lg
                    = (Inr [(make_name m, [Config_update (cs ! i) [(make_name m, vs ! i)]])], lg)"
      by (simp add: aggregate_collection_def ex)
    with fb False show ?thesis by auto
  qed
qed

text \<open>
  C2 (amended). The entries that Min and Max pass over are the NaN entries, and every run of
  the group has to hold the field. Take a leaf group of at least one record, each record
  holding at the field \<open>f\<close> a finite number or NaN (\<open>vs\<close> are these values, \<open>xs\<close> the
  entries of the array numpy makes of them, an int rounded to \<open>float64\<close> when the list
  also holds a float), and \<open>free_unused\<close> leaving every record as it is. Then
  \<open>_aggregate_collection\<close> with the one map \<open>Min(f)\<close> returns, under the name \<open>min(f)\<close>,
  a single record:
  \<^item> when some entry is not NaN, a copy of the record at the first index \<open>i\<close> whose value
    is least among the entries that are not NaN, with the key \<open>min(f)\<close> added, holding
    that record's value at \<open>f\<close>;
  \<^item> when every entry is NaN, a copy of the last record, with \<open>min(f)\<close> holding its value.
  The same holds for \<open>Max(f)\<close>, \<open>max(f)\<close> and the greatest entry. The instance below
  includes the claim's records \<open>{x:3}\<close>, \<open>{x:1}\<close>, \<open>{x:2}\<close>.
\<close>

theorem min_max_select_optimum:
  assumes "cs \<noteq> []"
      and "map (\<lambda>c. map_of (lazy c) f) cs = map (\<lambda>v. Some (Eager v)) vs"
      and "np_entries vs = Inr xs"
      and "\<forall>c\<in>set cs. Config_free_unused c = Inr c"
  shows "(if \<forall>x\<in>set xs. x = None
          then aggregate_collection fs cs [Min_init f] lg
                = (Inr [(''min('' @ f @ '')'',
                         [Config_update (last cs) [(''min('' @ f @ '')'', last vs)]])], lg)
          else \<exists>i b. first_best (\<lambda>x y. x < y) xs i b
                \<and> aggregate_collection fs cs [Min_init f] lg
                    = (Inr [(''min('' @ f @ '')'',
                             [Config_update (cs ! i) [(''min('' @ f @ '')'', vs ! i)]])], lg))
       \<and> (if \<forall>x\<in>set xs. x = None
          then aggregate_collection fs cs [Max_init f] lg
                = (Inr [(''max('' @ f @ '')'',
                         [Config_update (last cs) [(''max('' @ f @ '')'', last vs)]])], lg)
          else \<exists>i b. first_best (\<lambda>x y. x > y) xs i b
                \<and> aggregate_collection fs cs [Max_init f] lg
                    = (Inr [(''max('' @ f @ '')'',
                             [Config_update (cs ! i) [(''max('' @ f @ '')'', vs ! i)]])], lg))"
proof
  have "if \<forall>x\<in>set xs. x = None
         then aggregate_collection fs cs [Min_init f] lg
                = (Inr [(make_name (Min_init f), [Config_update (last cs) [(make_name (Min_init f), last vs)]])], lg)
         else \<exists>i b. first_best (\<lambda>x y. x < y) xs i b
                \<and> aggregate_collection fs cs [Min_init f] lg
                    = (Inr [(make_name (Min_init f), [Config_update (cs ! i) [(make_name (Min_init f), vs ! i)]])], lg)"
  proof (rule aggregate_collection_arg [OF assms, where nanarg = np_nanargmin])
    show "keys (Min_init f) = [f]" by (simp add: Min_init_def)
    show "apply_and_unpack (Min_init f) = (\<lambda>rows. case arg_apply np_nanargmin (Min_init f) rows of
                   Inl e \<Rightarrow> Inl e | Inr (agg_val, index) \<Rightarrow> Inr (agg_val, Some index))"
      by (rule ext) (simp add: apply_and_unpack_def Min_init_def Min_apply_def)
    show "np_nanargmin vs = (case nan_scan (\<lambda>x y. x < y) xs 0 None of
                      None \<Rightarrow> Inl ValueError | Some (i, x) \<Rightarrow> Inr (int i))"
      by (simp add: np_nanargmin_def assms(3))
    show "\<And>i b. nan_scan (\<lambda>x y. x < y) xs 0 None = Some (i, b) \<Longrightarrow> first_best (\<lambda>x y. x < y) xs i b"
      by (rule nan_scan_min)
  qed
  then show "if \<forall>x\<in>set xs. x = None
          then aggregate_collection fs cs [Min_init f] lg
                = (Inr [(''min('' @ f @ '')'',
                         [Config_update (last cs) [(''min('' @ f @ '')'', last vs)]])], lg)
          else \<exists>i b. first_best (\<lambda>x y. x < y) xs i b
                \<and> aggregate_collection fs cs [Min_init f] lg
                    = (Inr [(''min('' @ f @ '')'',
                             [Config_update (cs ! i) [(''min('' @ f @ '')'', vs ! i)]])], lg)"
    by (simp only: min_name)
next
  have "if \<forall>x\<in>set xs. x = None
         then aggregate_collection fs cs [Max_init f] lg
                = (Inr [(make_name (Max_init f), [Config_update (last cs) [(make_name (Max_init f), last vs)]])], lg)
         else \<exists>i b. first_best (\<lambda>x y. x > y) xs i b
                \<and> aggregate_collection fs cs [Max_init f] lg
                    = (Inr [(make_name (Max_init f), [Config_update (cs ! i) [(make_name (Max_init f), vs ! i)]])], lg)"
  proof (rule aggregate_collection_arg [OF assms, where nanarg = np_nanargmax])
    show "keys (Max_init f) = [f]" by (simp add: Max_init_def)
    show "apply_and_unpack (Max_init f) = (\<lambda>rows. case arg_apply np_nanargmax (Max_init f) rows of
                   Inl e \<Rightarrow> Inl e | Inr (agg_val, index) \<Rightarrow> Inr (agg_val, Some index))"
      by (rule ext) (simp add: apply_and_unpack_def Max_init_def Max_apply_def)
    show "np_nanargmax vs = (case nan_scan (\<lambda>x y. x > y) xs 0 None of
                      None \<Rightarrow> Inl ValueError | Some (i, x) \<Rightarrow> Inr (int i))"
      by (simp add: np_nanargmax_def assms(3))
    show "\<And>i b. nan_scan (\<lambda>x y. x > y) xs 0 None = Some (i, b) \<Longrightarrow> first_best (\<lambda>x y. x > y) xs i b"
      by (rule nan_scan_max)
  qed
  then show "if \<forall>x\<in>set xs. x = None
          then aggregate_collection fs cs [Max_init f] lg
                = (Inr [(''max('' @ f @ '')'',
                         [Config_update (last cs) [(''max('' @ f @ '')'', last vs)]])], lg)
          else \<exists>i b. first_best (\<lambda>x y. x > y) xs i b
                \<and> aggregate_collection fs cs [Max_init f] lg
                    = (Inr [(''max('' @ f @ '')'',
                             [Config_update (cs ! i) [(''max('' @ f @ '')'', vs ! i)]])], lg)"
    by (simp only: max_name)
qed


lemma first_best_example_min: "first_best (\<lambda>x y. x < y) [Some 3, Some 1, Some 2] i b \<Longrightarrow> i = 1"
proof -
  assume fb: "first_best (\<lambda>x y. x < y) [Some 3, Some 1, Some 2] i b"
  then have "i < 3" by (simp add: first_best_def)
  then consider "i = 0" | "i = 1" | "i = 2" by linarith
  then show ?thesis
  proof cases
    case 1
    with fb have "b = 3" and "\<forall>k<3. \<forall>y. [Some 3, Some 1, Some (2::real)] ! k = Some y \<longrightarrow> \<not> y < b"
      by (auto simp: first_best_def)
    then have "\<not> (1::real) < 3" by (auto dest: spec [of _ 1])
    then show ?thesis by simp
  next
    case 2
    then show ?thesis .
  next
    case 3
    with fb have "b = 2" and "\<forall>k<3. \<forall>y. [Some 3, Some 1, Some (2::real)] ! k = Some y \<longrightarrow> \<not> y < b"
      by (auto simp: first_best_def)
    then have "\<not> (1::real) < 2" by (auto dest: spec [of _ 1])
    then show ?thesis by simp
  qed
qed

lemma first_best_example_max: "first_best (\<lambda>x y. x > y) [Some 3, Some 1, Some 2] i b \<Longrightarrow> i = 0"
proof -
  assume fb: "first_best (\<lambda>x y. x > y) [Some 3, Some 1, Some 2] i b"
  then have "i < 3" by (simp add: first_best_def)
  then consider "i = 0" | "i = 1" | "i = 2" by linarith
  then show ?thesis
  proof cases
    case 1
    then show ?thesis .
  next
    case 2
    with fb have "b = 1" and "\<forall>k<3. \<forall>y. [Some 3, Some 1, Some (2::real)] ! k = Some y \<longrightarrow> \<not> y > b"
      by (auto simp: first_best_def)
    then have "\<not> (3::real) > 1" by (auto dest: spec [of _ 0])
    then show ?thesis by simp
  next
    case 3
    with fb have "b = 2" and "\<forall>k<3. \<forall>y. [Some 3, Some 1, Some (2::real)] ! k = Some y \<longrightarrow> \<not> y > b"
      by (auto simp: first_best_def)
    then have "\<not> (3::real) > 2" by (auto dest: spec [of _ 0])
    then show ?thesis by simp
  qed
qed

lemma eager_free_unused: "Config_free_unused (eager_config d) = Inr (eager_config d)"
  by (simp add: Config_free_unused_def eager_config_def)

theorem min_max_select_optimum_witness:
  "aggregate_collection ex_fs
      [eager_config [(''x'', PInt 3)], eager_config [(''x'', PInt 1)], eager_config [(''x'', PInt 2)]]
      [Min_init ''x''] []
     = (Inr [(''min(x)'', [eager_config [(''x'', PInt 1), (''min(x)'', PInt 1)]])], [])
   \<and> aggregate_collection ex_fs
      [eager_config [(''x'', PInt 3)], eager_config [(''x'', PInt 1)], eager_config [(''x'', PInt 2)]]
      [Max_init ''x''] []
     = (Inr [(''max(x)'', [eager_config [(''x'', PInt 3), (''max(x)'', PInt 3)]])], [])
   \<and> aggregate_collection ex_fs
      [eager_config [(''x'', PNaN), (''id'', PInt 1)], eager_config [(''x'', PNaN), (''id'', PInt 2)]]
      [Min_init ''x''] []
     = (Inr [(''min(x)'', [eager_config [(''x'', PNaN), (''id'', PInt 2), (''min(x)'', PNaN)]])], [])"
proof -
  let ?cs = "[eager_config [(''x'', PInt 3)], eager_config [(''x'', PInt 1)], eager_config [(''x'', PInt 2)]]"
  let ?vs = "[PInt 3, PInt 1, PInt 2]"
  let ?xs = "[Some 3, Some 1, Some (2::real)]"
  have a: "?cs \<noteq> []" by simp
  have b: "map (\<lambda>c. map_of (lazy c) ''x'') ?cs = map (\<lambda>v. Some (Eager v)) ?vs"
    by (simp add: eager_config_def)
  have c: "np_entries ?vs = Inr ?xs" by (simp add: np_entries_def np_asarray_def int64_def)
  have d: "\<forall>c\<in>set ?cs. Config_free_unused c = Inr c" by (simp add: eager_free_unused)
  have n: "\<not> (\<forall>x\<in>set ?xs. x = None)" by simp
  note t = min_max_select_optimum [OF a b c d, of ex_fs "[]"]
  from t n obtain i b where
    fi: "first_best (\<lambda>x y. x < y) ?xs i b" and
    ei: "aggregate_collection ex_fs ?cs [Min_init ''x''] []
       = (Inr [(''min(x)'', [Config_update (?cs ! i) [(''min(x)'', ?vs ! i)]])], [])"
    by auto
  from fi have "i = 1" by (rule first_best_example_min)
  with ei have m1: "aggregate_collection ex_fs ?cs [Min_init ''x''] []
       = (Inr [(''min(x)'', [eager_config [(''x'', PInt 1), (''min(x)'', PInt 1)]])], [])"
    by (simp add: Config_update_def eager_config_def)
  from t n obtain j b' where
    fj: "first_best (\<lambda>x y. x > y) ?xs j b'" and
    ej: "aggregate_collection ex_fs ?cs [Max_init ''x''] []
       = (Inr [(''max(x)'', [Config_update (?cs ! j) [(''max(x)'', ?vs ! j)]])], [])"
    by auto
  from fj have "j = 0" by (rule first_best_example_max)
  with ej have m2: "aggregate_collection ex_fs ?cs [Max_init ''x''] []
       = (Inr [(''max(x)'', [eager_config [(''x'', PInt 3), (''max(x)'', PInt 3)]])], [])"
    by (simp add: Config_update_def eager_config_def)
  let ?ns = "[eager_config [(''x'', PNaN), (''id'', PInt 1)], eager_config [(''x'', PNaN), (''id'', PInt 2)]]"
  have a': "?ns \<noteq> []" by simp
  have b': "map (\<lambda>c. map_of (lazy c) ''x'') ?ns = map (\<lambda>v. Some (Eager v)) [PNaN, PNaN]"
    by (simp add: eager_config_def)
  have c': "np_entries [PNaN, PNaN] = Inr [None, None]" by (simp add: np_entries_def np_asarray_def)
  have d': "\<forall>c\<in>set ?ns. Config_free_unused c = Inr c" by (simp add: eager_free_unused)
  from min_max_select_optimum [OF a' b' c' d', of ex_fs "[]"]
  have m3: "aggregate_collection ex_fs ?ns [Min_init ''x''] []
     = (Inr [(''min(x)'', [eager_config [(''x'', PNaN), (''id'', PInt 2), (''min(x)'', PNaN)]])], [])"
    by (simp add: Config_update_def eager_config_def)
  from m1 m2 m3 show ?thesis by simp
qed

text \<open>
  C2 as stated, with missing entries passed over, fails on a group in which one run does
  not hold the field: for the records \<open>{x:3}\<close> and \<open>{y:1}\<close>, \<open>_aggregate_collection\<close> with
  \<open>Min(x)\<close> or with \<open>Max(x)\<close> raises \<open>KeyError\<close> where it reads \<open>config_dict[key]\<close>,
  before the map is applied.
\<close>

theorem min_max_missing_field_counterexample:
  "aggregate_collection ex_fs
     [eager_config [(''x'', PInt 3)], eager_config [(''y'', PInt 1)]] [Min_init ''x''] []
     = (Inl (KeyError ''x''), [])
   \<and> aggregate_collection ex_fs
     [eager_config [(''x'', PInt 3)], eager_config [(''y'', PInt 1)]] [Max_init ''x''] []
     = (Inl (KeyError ''x''), [])"
  by (simp add: aggregate_collection_def extract_keys_from_maps_def Min_init_def Max_init_def
        eager_config_def Config_getitem_def Config_free_unused_def)


section \<open>Numbers that float64 holds exactly\<close>

lemma pow2_powr: "pow2 e = 2 powr (of_int e)"
proof (cases "0 \<le> e")
  case True
  then have "2 powr (of_int e) = (2::real) powr (real (nat e))" by simp
  also have "\<dots> = 2 ^ nat e" by (rule powr_realpow) simp
  finally show ?thesis using True by (simp add: pow2_def)
next
  case False
  then have "(2::real) powr (of_int e) = 2 powr (- real (nat (- e)))" by simp
  also have "\<dots> = 1 / 2 powr (real (nat (- e)))" by (simp add: powr_minus_divide)
  also have "\<dots> = 1 / 2 ^ nat (- e)" by (simp add: powr_realpow)
  finally show ?thesis using False by (simp add: pow2_def)
qed

lemma pow2_pos: "0 < pow2 e"
  by (simp add: pow2_powr)

lemma pow2_add: "pow2 (a + b) = pow2 a * pow2 b"
  by (simp add: pow2_powr powr_add)

lemma pow2_less_iff: "pow2 a < pow2 b \<longleftrightarrow> a < b"
  by (simp add: pow2_powr)

lemma pow2_nat: "0 \<le> e \<Longrightarrow> pow2 e = of_int (2 ^ nat e)"
  by (simp add: pow2_def)

lemma round_even_int: "round_even (of_int n) = n"
  by (simp add: round_even_def)

lemma floor_log2_le: "x \<noteq> 0 \<Longrightarrow> pow2 \<lfloor>log 2 \<bar>x\<bar>\<rfloor> \<le> \<bar>x\<bar>"
proof -
  assume "x \<noteq> 0"
  then have pos: "0 < \<bar>x\<bar>" by simp
  have "of_int \<lfloor>log 2 \<bar>x\<bar>\<rfloor> \<le> log 2 \<bar>x\<bar>" by simp
  then have "2 powr (of_int \<lfloor>log 2 \<bar>x\<bar>\<rfloor>) \<le> 2 powr (log 2 \<bar>x\<bar>)"
    by (simp only: powr_le_cancel_iff [of 2] one_less_numeral_iff semiring_norm)
  also have "\<dots> = \<bar>x\<bar>" using pos by simp
  finally show ?thesis by (simp only: pow2_powr)
qed

text \<open>
  A number \<open>m * 2 ^ k\<close> with an integer \<open>m\<close> of less than 54 bits, within the range, is a
  float64: rounding leaves it as it is.
\<close>

lemma round64_exact:
  assumes x: "x = of_int m * pow2 k" and m: "\<bar>m\<bar> < 2 ^ 53" and k: "- 1074 \<le> k"
      and r: "\<bar>x\<bar> < 2 ^ 1024"
  shows "round64 x = Fin x"
proof (cases "x = 0")
  case True
  then show ?thesis by (simp add: round64_def)
next
  case False
  define l where "l = \<lfloor>log 2 \<bar>x\<bar>\<rfloor>"
  define e where "e = binade x"
  define u where "u = pow2 (e - 52)"
  have el: "e = max l (- 1022)" by (simp add: e_def l_def binade_def)
  have "pow2 l \<le> \<bar>x\<bar>" unfolding l_def using False by (rule floor_log2_le)
  also have "\<bar>x\<bar> = \<bar>of_int m\<bar> * pow2 k" using pow2_pos [of k] by (simp add: x abs_mult)
  also have "\<dots> < 2 ^ 53 * pow2 k"
  proof -
    have "\<bar>of_int m :: real\<bar> < 2 ^ 53" using m by (metis of_int_abs of_int_less_numeral_power_cancel_iff)
    then show ?thesis using pow2_pos [of k] by simp
  qed
  also have "\<dots> = pow2 (53 + k)"
  proof -
    have "pow2 53 = 2 ^ 53" by (simp add: pow2_def)
    then show ?thesis by (simp only: pow2_add)
  qed
  finally have "l < 53 + k" by (simp only: pow2_less_iff)
  then have e: "e \<le> k + 52" using k by (simp add: el)
  define d where "d = k - e + 52"
  have d: "0 \<le> d" using e by (simp add: d_def)
  have "k = (e - 52) + d" by (simp add: d_def)
  then have "pow2 k = pow2 (e - 52) * pow2 d" by (simp only: pow2_add)
  then have kd: "pow2 k = u * pow2 d" by (simp only: u_def)
  have u0: "u \<noteq> 0" unfolding u_def using pow2_pos [of "e - 52"] by simp
  have pd: "pow2 d = of_int (2 ^ nat d)" using d by (rule pow2_nat)
  have "x = of_int m * (u * pow2 d)" using x by (simp only: kd)
  then have "x / u = of_int m * pow2 d" using u0 by simp
  also have "\<dots> = of_int (m * 2 ^ nat d)" by (simp only: pd of_int_mult)
  finally have q: "x / u = of_int (m * 2 ^ nat d)" .
  have "u * of_int (round_even (x / u)) = u * (x / u)"
    by (simp only: q round_even_int)
  also have "\<dots> = x" using u0 by simp
  finally have "u * of_int (round_even (x / u)) = x" .
  then have "pow2 (binade x - 52) * of_int (round_even (x / pow2 (binade x - 52))) = x"
    by (simp only: u_def e_def)
  then show ?thesis using False r by (simp add: round64_def Let_def)
qed

lemma round64_int: "\<bar>z\<bar> < 2 ^ 53 \<Longrightarrow> round64 (of_int z) = Fin (of_int z)"
proof -
  assume z: "\<bar>z\<bar> < 2 ^ 53"
  have "\<bar>of_int z :: real\<bar> < 2 ^ 53" using z by (metis of_int_abs of_int_less_numeral_power_cancel_iff)
  also have "(2::real) ^ 53 < 2 ^ 1024" by simp
  finally have "\<bar>of_int z :: real\<bar> < 2 ^ 1024" .
  with z show ?thesis by (intro round64_exact [of _ z 0]) (simp_all add: pow2_def)
qed

lemma round64_Ints: "x \<in> \<int> \<Longrightarrow> \<bar>x\<bar> < 2 ^ 53 \<Longrightarrow> round64 x = Fin x"
proof -
  assume "x \<in> \<int>" and b: "\<bar>x\<bar> < 2 ^ 53"
  then obtain z where z: "x = of_int z" by (auto elim: Ints_cases)
  from b have "\<bar>z\<bar> < 2 ^ 53" unfolding z by (metis of_int_abs of_int_less_numeral_power_cancel_iff)
  then show ?thesis unfolding z by (rule round64_int)
qed

lemma small_floats:
  "round64 0 = Fin 0" "round64 1 = Fin 1" "round64 2 = Fin 2" "round64 3 = Fin 3"
  "round64 4 = Fin 4" "round64 8 = Fin 8"
  by (simp_all add: round64_Ints)

lemma big_floats:
  "round64 4000000000 = Fin 4000000000"
  "round64 8000000000 = Fin 8000000000"
  "round64 (- 2446744073709551616) = Fin (- 2446744073709551616)"
  "round64 (- 4893488147419103232) = Fin (- 4893488147419103232)"
  "round64 16000000000000000000 = Fin 16000000000000000000"
  "round64 (- 18446744073709551616) = Fin (- 18446744073709551616)"
proof -
  show "round64 4000000000 = Fin 4000000000" by (simp add: round64_Ints)
  show "round64 8000000000 = Fin 8000000000" by (simp add: round64_Ints)
  show "round64 (- 2446744073709551616) = Fin (- 2446744073709551616)"
    by (rule round64_exact [of _ "- 583349245479" 22]) (simp_all add: pow2_def)
  show "round64 (- 4893488147419103232) = Fin (- 4893488147419103232)"
    by (rule round64_exact [of _ "- 583349245479" 23]) (simp_all add: pow2_def)
  show "round64 16000000000000000000 = Fin 16000000000000000000"
    by (rule round64_exact [of _ "3814697265625" 22]) (simp_all add: pow2_def)
  show "round64 (- 18446744073709551616) = Fin (- 18446744073709551616)"
    by (rule round64_exact [of _ "- 1" 64]) (simp_all add: pow2_def)
qed


section \<open>AvgStd over a leaf group\<close>

lemma fold_min_le: "fold min ns (n::nat) \<le> n"
proof (induction ns arbitrary: n)
  case Nil
  then show ?case by simp
next
  case (Cons a ns)
  have "fold min ns (min a n) \<le> min a n" by (rule Cons.IH)
  then show ?case by simp
qed

lemma map2_map_map: "map2 f (map g js) (map h js) = map (\<lambda>j. f (g j) (h j)) js"
  by (induction js) simp_all

text \<open>Adding arrays one after the other adds, at each position, the entries in that order.\<close>

lemma fold_zip_curve:
  "fold (\<lambda>x s. map2 g s x) xss s
     = map (\<lambda>j. foldl g (s ! j) (map (\<lambda>x. x ! j) xss)) [0..<fold min (map length xss) (length s)]"
proof (induction xss arbitrary: s)
  case Nil
  then show ?case by (simp add: map_nth)
next
  case (Cons x xss)
  let ?s' = "map2 g s x"
  have len: "length ?s' = min (length x) (length s)" by (simp add: min.commute)
  have le: "fold min (map length xss) (min (length x) (length s)) \<le> min (length x) (length s)"
    by (rule fold_min_le)
  have "fold (\<lambda>x s. map2 g s x) (x # xss) s = fold (\<lambda>x s. map2 g s x) xss ?s'" by simp
  also have "\<dots> = map (\<lambda>j. foldl g (?s' ! j) (map (\<lambda>x. x ! j) xss))
                     [0..<fold min (map length xss) (min (length x) (length s))]"
    by (simp only: Cons.IH len)
  also have "\<dots> = map (\<lambda>j. foldl g (s ! j) (map (\<lambda>x. x ! j) (x # xss)))
                     [0..<fold min (map length xss) (min (length x) (length s))]"
  proof (rule map_cong [OF refl])
    fix j assume "j \<in> set [0..<fold min (map length xss) (min (length x) (length s))]"
    with le have "j < length x" and "j < length s" by auto
    then show "foldl g (?s' ! j) (map (\<lambda>x. x ! j) xss) = foldl g (s ! j) (map (\<lambda>x. x ! j) (x # xss))"
      by simp
  qed
  finally show ?case by simp
qed

lemma key_names_differ [simp]: "f @ ''_avg'' \<noteq> f @ ''_std''" "f @ ''_std'' \<noteq> f @ ''_avg''"
  by simp_all

lemma map2_take:
  "L = min (length s) (length x) \<Longrightarrow> map2 g (take L s) (take L x) = map2 g s x"
proof -
  assume L: "L = min (length s) (length x)"
  have "zip (take L s) (take L x) = take L (zip s x)" by (simp only: take_zip)
  also have "\<dots> = zip s x" using L by simp
  finally show ?thesis by simp
qed

lemma as_float64_take: "as_float64 (array_take n a) = take n (as_float64 a)"
  by (cases a) (simp_all add: take_map)

lemma array_square_take: "array_square (array_take n a) = array_take n (array_square a)"
  by (cases a) (simp_all add: take_map)

lemma length_square: "length (as_float64 (array_square a)) = length (as_float64 a)"
  by (cases a) simp_all

lemma accumulate_key_first:
  assumes "np_asarray vl = Inr a"
  shows "accumulate_key 0 [(f, PList vl)] f []
           = Inr [(f @ ''_avg'', map2 fadd (np_zeros (length vl)) (as_float64 a)),
                  (f @ ''_std'', map2 fadd (np_zeros (length vl)) (as_float64 (array_square a)))]"
proof -
  have n: "length (as_float64 a) = length vl" using assms by (rule np_asarray_length)
  have z: "take (length vl) (np_zeros (length vl)) = np_zeros (length vl)"
    by (simp add: np_zeros_def)
  have a: "take (length vl) (as_float64 a) = as_float64 a" using n by simp
  have q: "take (length vl) (as_float64 (array_square a)) = as_float64 (array_square a)"
    using n by (simp add: length_square)
  show ?thesis
    by (simp add: accumulate_key_def dict_getitem_def assms array_add_def Let_def
          as_float64_take array_square_take z a q)
qed

lemma accumulate_key_next:
  assumes "np_asarray vl = Inr a" and "length q = length s"
  shows "accumulate_key (Suc i) [(f, PList vl)] f [(f @ ''_avg'', s), (f @ ''_std'', q)]
           = Inr [(f @ ''_avg'', map2 fadd s (as_float64 a)),
                  (f @ ''_std'', map2 fadd q (as_float64 (array_square a)))]"
proof -
  have n: "length (as_float64 a) = length vl" using assms(1) by (rule np_asarray_length)
  let ?L = "min (length s) (length vl)"
  have a: "map2 fadd (take ?L s) (take ?L (as_float64 a)) = map2 fadd s (as_float64 a)"
    by (rule map2_take) (simp add: n)
  have b: "map2 fadd (take ?L q) (take ?L (as_float64 (array_square a)))
             = map2 fadd q (as_float64 (array_square a))"
    by (rule map2_take) (simp add: n length_square assms(2))
  show ?thesis
    by (simp add: accumulate_key_def dict_getitem_def assms(1) array_add_def Let_def
          as_float64_take array_square_take a b)
qed

lemma accumulate_runs_next:
  assumes "map np_asarray vls = map Inr arrs" and "length q = length s"
  shows "accumulate_runs (Suc i) (map (\<lambda>vl. [(f, PList vl)]) vls) [f]
             [(f @ ''_avg'', s), (f @ ''_std'', q)]
           = Inr [(f @ ''_avg'', fold (\<lambda>x s. map2 fadd s x) (map as_float64 arrs) s),
                  (f @ ''_std'', fold (\<lambda>x s. map2 fadd s x)
                                      (map (\<lambda>a. as_float64 (array_square a)) arrs) q)]"
  using assms
proof (induction vls arbitrary: arrs s q i)
  case Nil
  then show ?case by simp
next
  case (Cons vl vls)
  from Cons.prems(1) obtain a arrs' where arrs: "arrs = a # arrs'"
    and a: "np_asarray vl = Inr a" and rest: "map np_asarray vls = map Inr arrs'"
    by (cases arrs) auto
  have n: "length (as_float64 a) = length vl" using a by (rule np_asarray_length)
  have len: "length (map2 fadd q (as_float64 (array_square a))) = length (map2 fadd s (as_float64 a))"
    using Cons.prems(2) by (simp add: length_square)
  have step: "accumulate_keys (Suc i) [(f, PList vl)] [f] [(f @ ''_avg'', s), (f @ ''_std'', q)]
      = Inr [(f @ ''_avg'', map2 fadd s (as_float64 a)),
             (f @ ''_std'', map2 fadd q (as_float64 (array_square a)))]"
    by (simp add: accumulate_key_next [OF a Cons.prems(2)])
  show ?case
    by (simp only: list.map accumulate_runs.simps step sum.case Cons.IH [OF rest len] arrs fold_simps)
qed

lemma accumulate_runs_all:
  assumes "map np_asarray (vl # vls) = map Inr (a # arrs)"
  shows "accumulate_runs 0 (map (\<lambda>vl. [(f, PList vl)]) (vl # vls)) [f] []
           = Inr [(f @ ''_avg'', fold (\<lambda>x s. map2 fadd s x) (map as_float64 (a # arrs))
                                      (np_zeros (length (as_float64 a)))),
                  (f @ ''_std'', fold (\<lambda>x s. map2 fadd s x)
                                      (map (\<lambda>a. as_float64 (array_square a)) (a # arrs))
                                      (np_zeros (length (as_float64 a))))]"
proof -
  from assms have a: "np_asarray vl = Inr a" and rest: "map np_asarray vls = map Inr arrs"
    by simp_all
  have n: "length (as_float64 a) = length vl" using a by (rule np_asarray_length)
  have first: "accumulate_keys 0 [(f, PList vl)] [f] []
      = Inr [(f @ ''_avg'', map2 fadd (np_zeros (length vl)) (as_float64 a)),
             (f @ ''_std'', map2 fadd (np_zeros (length vl)) (as_float64 (array_square a)))]"
    by (simp add: accumulate_key_first [OF a])
  have len: "length (map2 fadd (np_zeros (length vl)) (as_float64 (array_square a)))
               = length (map2 fadd (np_zeros (length vl)) (as_float64 a))"
    by (simp add: length_square)
  show ?thesis
    by (simp only: list.map accumulate_runs.simps first sum.case
                   accumulate_runs_next [OF rest len] fold_simps n)
qed

lemma column_float_sums:
  "fold (\<lambda>x s. map2 fadd s x) (x # xss) (np_zeros (length x))
     = map (\<lambda>j. float_sum (map (\<lambda>x. x ! j) (x # xss))) [0..<common_length (x # xss)]"
proof -
  let ?L = "common_length (x # xss)"
  have L: "fold min (map length (x # xss)) (length (np_zeros (length x))) = ?L"
    by (simp add: common_length_def np_zeros_def)
  have "fold (\<lambda>x s. map2 fadd s x) (x # xss) (np_zeros (length x))
      = map (\<lambda>j. foldl fadd (np_zeros (length x) ! j) (map (\<lambda>x. x ! j) (x # xss))) [0..<?L]"
    by (simp only: fold_zip_curve L)
  also have "\<dots> = map (\<lambda>j. float_sum (map (\<lambda>x. x ! j) (x # xss))) [0..<?L]"
  proof (rule map_cong [OF refl])
    fix j assume j: "j \<in> set [0..<?L]"
    have "?L \<le> length x" unfolding common_length_def list.sel by (rule fold_min_le)
    with j have "j < length x" by simp
    then have "np_zeros (length x) ! j = Fin 0" by (simp add: np_zeros_def)
    then show "foldl fadd (np_zeros (length x) ! j) (map (\<lambda>x. x ! j) (x # xss))
                 = float_sum (map (\<lambda>x. x ! j) (x # xss))"
      by (simp only: float_sum_def)
  qed
  finally show ?thesis .
qed

lemma common_length_squares:
  "common_length (map (\<lambda>a. as_float64 (array_square a)) arrs) = common_length (map as_float64 arrs)"
proof (cases arrs)
  case Nil
  then show ?thesis by (simp add: common_length_def)
next
  case (Cons a rest)
  have "map length (map (\<lambda>a. as_float64 (array_square a)) rest) = map length (map as_float64 rest)"
    by (simp add: length_square)
  then show ?thesis
    by (simp add: Cons common_length_def length_square del: map_map)
qed

lemma finish_keys_single:
  "finish_keys n [f] [(f @ ''_avg'', s), (f @ ''_std'', q)]
     = Inr [(f @ ''_avg'', map (\<lambda>x. fdiv x (round64 (real n))) s),
            (f @ ''_std'', map fsqrt (map2 fsub (map (\<lambda>x. fdiv x (round64 (real n))) q)
                                      (map fsquare (map (\<lambda>x. fdiv x (round64 (real n))) s))))]"
  by (simp add: finish_key_def dict_getitem_def)

lemma compute_mean_and_std_general:
  assumes "rows = r1 # r2 # rs" and "map fst r1 = ks"
      and "accumulate_runs 0 rows ks [] = Inr totals"
      and "finish_keys (length rows) ks totals = Inr out"
  shows "compute_mean_and_std rows = Inr (map (\<lambda>(k, xs). (k, PArray xs)) out)"
  using assms
  by (simp add: compute_mean_and_std_def Let_def del: accumulate_runs.simps)

lemma compute_mean_and_std_many:
  assumes "map np_asarray (vl # vl' # vls) = map Inr arrs"
  shows "compute_mean_and_std (map (\<lambda>vl. [(f, PList vl)]) (vl # vl' # vls))
           = Inr [(f @ ''_avg'', PArray (float_mean_curve arrs)),
                  (f @ ''_std'', PArray (float_std_curve arrs))]"
proof -
  from assms obtain a arrs' where arrs: "arrs = a # arrs'" by (cases arrs) auto
  have n: "length arrs = length (vl # vl' # vls)" using assms by (metis length_map)
  let ?n = "length (vl # vl' # vls)"
  let ?A = "map as_float64 (a # arrs')"
  let ?Q = "map (\<lambda>a. as_float64 (array_square a)) (a # arrs')"
  let ?L = "common_length ?A"
  let ?S = "map (\<lambda>j. float_sum (map (\<lambda>x. x ! j) ?A)) [0..<?L]"
  let ?T = "map (\<lambda>j. float_sum (map (\<lambda>x. x ! j) ?Q)) [0..<?L]"
  have cs: "fold (\<lambda>x s. map2 fadd s x) ?A (np_zeros (length (as_float64 a))) = ?S"
    using column_float_sums [of "as_float64 a" "map as_float64 arrs'"] by simp
  have cq: "fold (\<lambda>x s. map2 fadd s x) ?Q (np_zeros (length (as_float64 a))) = ?T"
    using column_float_sums [of "as_float64 (array_square a)"
                                "map (\<lambda>a. as_float64 (array_square a)) arrs'"]
          common_length_squares [of "a # arrs'"]
    by (simp add: length_square)
  have acc: "accumulate_runs 0 (map (\<lambda>vl. [(f, PList vl)]) (vl # vl' # vls)) [f] []
      = Inr [(f @ ''_avg'', ?S), (f @ ''_std'', ?T)]"
    using accumulate_runs_all [OF assms [unfolded arrs], of f]
    by (simp only: cs cq)
  have nn: "?n = length (a # arrs')" using n by (simp only: arrs)
  have avg: "map (\<lambda>x. fdiv x (round64 (real (length (a # arrs'))))) ?S = float_mean_curve (a # arrs')"
    by (simp add: float_mean_curve_def float_mean_def comp_def del: upt_Suc)
  have std: "map fsqrt (map2 fsub (map (\<lambda>x. fdiv x (round64 (real (length (a # arrs'))))) ?T)
                                  (map fsquare (map (\<lambda>x. fdiv x (round64 (real (length (a # arrs'))))) ?S)))
             = float_std_curve (a # arrs')"
    by (simp add: float_std_curve_def float_mean_def comp_def map2_map_map del: upt_Suc)
  have fin: "finish_keys (length (a # arrs')) [f] [(f @ ''_avg'', ?S), (f @ ''_std'', ?T)]
      = Inr [(f @ ''_avg'', float_mean_curve (a # arrs')), (f @ ''_std'', float_std_curve (a # arrs'))]"
    by (simp only: finish_keys_single std) (simp only: avg)
  have fin': "finish_keys (length (map (\<lambda>vl. [(f, PList vl)]) (vl # vl' # vls))) [f]
                 [(f @ ''_avg'', ?S), (f @ ''_std'', ?T)]
      = Inr [(f @ ''_avg'', float_mean_curve arrs), (f @ ''_std'', float_std_curve arrs)]"
    using fin by (simp only: length_map nn arrs)
  have "compute_mean_and_std (map (\<lambda>vl. [(f, PList vl)]) (vl # vl' # vls))
         = Inr (map (\<lambda>(k, xs). (k, PArray xs))
                  [(f @ ''_avg'', float_mean_curve arrs), (f @ ''_std'', float_std_curve arrs)])"
  proof (rule compute_mean_and_std_general [OF _ _ acc fin'])
    show "map (\<lambda>vl. [(f, PList vl)]) (vl # vl' # vls)
            = [(f, PList vl)] # [(f, PList vl')] # map (\<lambda>vl. [(f, PList vl)]) vls" by simp
    show "map fst [(f, PList vl)] = [f]" by simp
  qed
  then show ?thesis by simp
qed

lemma compute_mean_and_std_one:
  "compute_mean_and_std [[(f, PList vl)]]
     = Inr [(f @ ''_avg'', PList vl), (f @ ''_std'', PArray (replicate (length vl) (Fin 0)))]"
  by (simp add: compute_mean_and_std_def single_run_def np_zeros_def)


lemma project_all_rows:
  "project_all [f] (map (\<lambda>v. [(f, v)]) vs) = Inr (map (\<lambda>v. [(f, v)]) vs)"
  by (induction vs) (simp_all add: dict_getitem_def)

lemma avgstd_name: "make_name (AvgStd_init f) = ''avgstd('' @ f @ '')''"
  by (simp add: make_name_def AvgStd_init_def)

lemma aggregate_collection_avgstd:
  assumes vals: "map (\<lambda>c. map_of (lazy c) f) cs = map (\<lambda>vl. Some (Eager (PList vl))) vls"
      and fr: "\<forall>c\<in>set cs. Config_free_unused c = Inr c"
      and cm: "compute_mean_and_std (map (\<lambda>vl. [(f, PList vl)]) vls) = Inr agg_val"
  shows "aggregate_collection fs cs [AvgStd_init f] lg
           = (Inr [(''avgstd('' @ f @ '')'', map (\<lambda>c. Config_update c agg_val) cs)], lg)"
proof -
  have vals': "map (\<lambda>c. map_of (lazy c) f) cs = map (\<lambda>v. Some (Eager v)) (map PList vls)"
    using vals by (simp add: comp_def)
  have ex: "extract_rows fs cs (extract_keys_from_maps [AvgStd_init f]) lg
              = (Inr (map (\<lambda>v. [(f, v)]) (map PList vls), cs), lg)"
    using extract_rows_eager [OF vals' fr] by (simp add: extract_keys_from_maps_def AvgStd_init_def)
  have rows: "map (\<lambda>v. [(f, v)]) (map PList vls) = map (\<lambda>vl. [(f, PList vl)]) vls"
    by (simp add: comp_def)
  have k: "keys (AvgStd_init f) = [f]" by (simp add: AvgStd_init_def)
  have pa: "project_all (keys (AvgStd_init f)) (map (\<lambda>v. [(f, v)]) (map PList vls))
              = Inr (map (\<lambda>vl. [(f, PList vl)]) vls)"
    using project_all_rows [of f "map PList vls"] by (simp only: rows k)
  have "AvgStd_apply (AvgStd_init f) (map (\<lambda>v. [(f, v)]) (map PList vls)) = Inr agg_val"
    by (simp only: AvgStd_apply_def pa sum.case cm)
  then have "apply_and_unpack (AvgStd_init f) (map (\<lambda>v. [(f, v)]) (map PList vls)) = Inr (agg_val, None)"
    by (simp add: apply_and_unpack_def AvgStd_init_def)
  then show ?thesis
    by (simp add: aggregate_collection_def ex avgstd_name)
qed

lemma aggregate_collection_avgstd_many:
  assumes "map (\<lambda>c. map_of (lazy c) f) cs = map (\<lambda>vl. Some (Eager (PList vl))) vls"
      and "map np_asarray vls = map Inr arrs"
      and "\<forall>c\<in>set cs. Config_free_unused c = Inr c"
      and "2 \<le> length cs"
  shows "aggregate_collection fs cs [AvgStd_init f] lg
              = (Inr [(''avgstd('' @ f @ '')'',
                       map (\<lambda>c. Config_update c
                                  [(f @ ''_avg'', PArray (float_mean_curve arrs)),
                                   (f @ ''_std'', PArray (float_std_curve arrs))]) cs)], lg)"
proof -
  have len: "length vls = length cs" using assms(1) by (metis length_map)
  with assms(4) obtain vl vl' rest where vls: "vls = vl # vl' # rest"
    by (cases vls; cases "tl vls") auto
  from compute_mean_and_std_many [OF assms(2) [unfolded vls], of f]
  have "compute_mean_and_std (map (\<lambda>vl. [(f, PList vl)]) vls)
          = Inr [(f @ ''_avg'', PArray (float_mean_curve arrs)),
                 (f @ ''_std'', PArray (float_std_curve arrs))]"
    by (simp only: vls)
  from aggregate_collection_avgstd [OF assms(1) assms(3) this] show ?thesis .
qed

lemma aggregate_collection_avgstd_one:
  assumes "map (\<lambda>c. map_of (lazy c) f) cs = map (\<lambda>vl. Some (Eager (PList vl))) vls"
      and "\<forall>c\<in>set cs. Config_free_unused c = Inr c"
      and "length cs = 1"
  shows "aggregate_collection fs cs [AvgStd_init f] lg
              = (Inr [(''avgstd('' @ f @ '')'',
                       map (\<lambda>c. Config_update c
                                  [(f @ ''_avg'', PList (hd vls)),
                                   (f @ ''_std'', PArray (replicate (length (hd vls)) (Fin 0)))]) cs)], lg)"
proof -
  have len: "length vls = length cs" using assms(1) by (metis length_map)
  with assms(3) obtain vl where vls: "vls = [vl]" by (cases vls) auto
  have "compute_mean_and_std (map (\<lambda>vl. [(f, PList vl)]) vls)
          = Inr [(f @ ''_avg'', PList (hd vls)),
                 (f @ ''_std'', PArray (replicate (length (hd vls)) (Fin 0)))]"
    by (simp add: vls compute_mean_and_std_one)
  from aggregate_collection_avgstd [OF assms(1) assms(2) this] show ?thesis .
qed

text \<open>
  C3 (amended). A leaf group whose records each hold at the field \<open>f\<close> a list of numbers
  (\<open>vls\<close> are the lists, \<open>arrs\<close> the arrays numpy makes of them), \<open>free_unused\<close> leaving
  every record as it is. With two or more records, \<open>_aggregate_collection\<close> with the one
  map \<open>AvgStd(f)\<close> returns under the name \<open>avgstd(f)\<close> a copy of every record of the
  group, each with the keys \<open>f_avg\<close> and \<open>f_std\<close> added. Both curves are cut to the
  shortest length met and computed in machine arithmetic: at each position \<open>f_avg\<close> holds
  the \<open>float64\<close> sum of the runs' entries, taken in the order of the runs, divided by the
  number of runs; \<open>f_std\<close> holds the square root of the mean of the squares, computed in
  the same way, minus the squared mean. The squares of a list of ints are taken in \<open>int64\<close>
  and wrap around, every other operation rounds, and the difference is not clamped: where
  it is negative the entry of \<open>f_std\<close> is NaN. With a single record the average is the
  record's own list and the deviation an array of zeros of its length. The instance below
  has the claim's sequences \<open>[1,2,3]\<close> and \<open>[1,2]\<close>, on which no operation rounds: mean
  \<open>[1.0, 2.0]\<close>, deviation \<open>[0.0, 0.0]\<close>.
\<close>

theorem avgstd_curves:
  assumes "map (\<lambda>c. map_of (lazy c) f) cs = map (\<lambda>vl. Some (Eager (PList vl))) vls"
      and "map np_asarray vls = map Inr arrs"
      and "\<forall>c\<in>set cs. Config_free_unused c = Inr c"
  shows "(2 \<le> length cs \<longrightarrow>
            aggregate_collection fs cs [AvgStd_init f] lg
              = (Inr [(''avgstd('' @ f @ '')'',
                       map (\<lambda>c. Config_update c
                                  [(f @ ''_avg'', PArray (float_mean_curve arrs)),
                                   (f @ ''_std'', PArray (float_std_curve arrs))]) cs)], lg))
       \<and> (length cs = 1 \<longrightarrow>
            aggregate_collection fs cs [AvgStd_init f] lg
              = (Inr [(''avgstd('' @ f @ '')'',
                       map (\<lambda>c. Config_update c
                                  [(f @ ''_avg'', PList (hd vls)),
                                   (f @ ''_std'', PArray (replicate (length (hd vls)) (Fin 0)))]) cs)], lg))"
  using aggregate_collection_avgstd_many [OF assms] aggregate_collection_avgstd_one [OF assms(1) assms(3)]
  by blast

lemma wrap64_small: "wrap64 1 = 1" "wrap64 4 = 4" "wrap64 9 = 9"
  by (simp_all add: wrap64_def)

lemma wrap64_big: "wrap64 16000000000000000000 = - 2446744073709551616"
  by (simp add: wrap64_def)

lemma upt_2: "[0..<2] = [0, Suc 0]"
  by (simp add: upt_rec)

lemma example_float_curves:
  "float_mean_curve [Int64 [1, 2, 3], Int64 [1, 2]] = [Fin 1, Fin 2]"
  "float_std_curve [Int64 [1, 2, 3], Int64 [1, 2]] = [Fin 0, Fin 0]"
proof -
  have L: "common_length (map as_float64 [Int64 [1, 2, 3], Int64 [1, 2]]) = 2"
    by (simp add: common_length_def)
  show "float_mean_curve [Int64 [1, 2, 3], Int64 [1, 2]] = [Fin 1, Fin 2]"
    unfolding float_mean_curve_def L upt_2
    by (simp add: float_mean_def float_sum_def small_floats)
  show "float_std_curve [Int64 [1, 2, 3], Int64 [1, 2]] = [Fin 0, Fin 0]"
    unfolding float_std_curve_def L upt_2
    by (simp add: float_mean_def float_sum_def small_floats wrap64_small)
qed

lemma wrapped_float_curves:
  "float_mean_curve [Int64 [4000000000], Int64 [4000000000]] = [Fin 4000000000]"
  "float_std_curve [Int64 [4000000000], Int64 [4000000000]] = [NaN]"
proof -
  have L: "common_length (map as_float64 [Int64 [4000000000], Int64 [4000000000]]) = 1"
    by (simp add: common_length_def)
  show "float_mean_curve [Int64 [4000000000], Int64 [4000000000]] = [Fin 4000000000]"
    unfolding float_mean_curve_def L
    by (simp add: float_mean_def float_sum_def small_floats big_floats)
  show "float_std_curve [Int64 [4000000000], Int64 [4000000000]] = [NaN]"
    unfolding float_std_curve_def L
    by (simp add: float_mean_def float_sum_def small_floats big_floats wrap64_big)
qed

lemma exact_std_example: "std_curve [[4000000000], [4000000000]] = [0]"
  by (simp add: std_curve_def common_length_def)

theorem avgstd_curves_witness:
  "aggregate_collection ex_fs
     [eager_config [(''m'', PList [PInt 1, PInt 2, PInt 3])],
      eager_config [(''m'', PList [PInt 1, PInt 2])]]
     [AvgStd_init ''m''] []
   = (Inr [(''avgstd(m)'',
            [eager_config [(''m'', PList [PInt 1, PInt 2, PInt 3]),
                           (''m_avg'', PArray [Fin 1, Fin 2]), (''m_std'', PArray [Fin 0, Fin 0])],
             eager_config [(''m'', PList [PInt 1, PInt 2]),
                           (''m_avg'', PArray [Fin 1, Fin 2]), (''m_std'', PArray [Fin 0, Fin 0])]])], [])
   \<and> aggregate_collection ex_fs
     [eager_config [(''m'', PList [PInt 1, PInt 2, PInt 3])]]
     [AvgStd_init ''m''] []
   = (Inr [(''avgstd(m)'',
            [eager_config [(''m'', PList [PInt 1, PInt 2, PInt 3]),
                           (''m_avg'', PList [PInt 1, PInt 2, PInt 3]),
                           (''m_std'', PArray [Fin 0, Fin 0, Fin 0])]])], [])"
proof -
  let ?cs = "[eager_config [(''m'', PList [PInt 1, PInt 2, PInt 3])],
              eager_config [(''m'', PList [PInt 1, PInt 2])]]"
  let ?vls = "[[PInt 1, PInt 2, PInt 3], [PInt 1, PInt 2]]"
  let ?arrs = "[Int64 [1, 2, 3], Int64 [1, 2]]"
  have a: "map (\<lambda>c. map_of (lazy c) ''m'') ?cs = map (\<lambda>vl. Some (Eager (PList vl))) ?vls"
    by (simp add: eager_config_def)
  have b: "map np_asarray ?vls = map Inr ?arrs" by (simp add: np_asarray_def int64_def)
  have c: "\<forall>c\<in>set ?cs. Config_free_unused c = Inr c" by (simp add: eager_free_unused)
  have two: "2 \<le> length ?cs" by simp
  from avgstd_curves [OF a b c, of ex_fs "[]"] two
  have m1: "aggregate_collection ex_fs ?cs [AvgStd_init ''m''] []
   = (Inr [(''avgstd(m)'',
            [eager_config [(''m'', PList [PInt 1, PInt 2, PInt 3]),
                           (''m_avg'', PArray [Fin 1, Fin 2]), (''m_std'', PArray [Fin 0, Fin 0])],
             eager_config [(''m'', PList [PInt 1, PInt 2]),
                           (''m_avg'', PArray [Fin 1, Fin 2]), (''m_std'', PArray [Fin 0, Fin 0])]])], [])"
    by (simp add: example_float_curves Config_update_def eager_config_def)
  let ?c1 = "[eager_config [(''m'', PList [PInt 1, PInt 2, PInt 3])]]"
  have a1: "map (\<lambda>c. map_of (lazy c) ''m'') ?c1
              = map (\<lambda>vl. Some (Eager (PList vl))) [[PInt 1, PInt 2, PInt 3]]"
    by (simp add: eager_config_def)
  have b1: "map np_asarray [[PInt 1, PInt 2, PInt 3]] = map Inr [Int64 [1, 2, 3]]"
    by (simp add: np_asarray_def int64_def)
  have c1: "\<forall>c\<in>set ?c1. Config_free_unused c = Inr c" by (simp add: eager_free_unused)
  from avgstd_curves [OF a1 b1 c1, of ex_fs "[]"]
  have m2: "aggregate_collection ex_fs ?c1 [AvgStd_init ''m''] []
   = (Inr [(''avgstd(m)'',
            [eager_config [(''m'', PList [PInt 1, PInt 2, PInt 3]),
                           (''m_avg'', PList [PInt 1, PInt 2, PInt 3]),
                           (''m_std'', PArray [Fin 0, Fin 0, Fin 0])]])], [])"
    by (simp add: Config_update_def eager_config_def numeral_3_eq_3)
  from m1 m2 show ?thesis by simp
qed

text \<open>
  C3 as stated, with \<open>f_std\<close> the population standard deviation, fails on two runs that
  both hold the sequence \<open>[4000000000]\<close>: the square \<open>16000000000000000000\<close> does not fit
  64 bits and wraps around to a negative number, the mean of the squares minus the squared
  mean is \<open>- 2 ^ 64\<close>, and its square root is NaN. The standard deviation of two equal
  numbers is \<open>0\<close>.
\<close>

theorem avgstd_wrapped_squares_counterexample:
  "aggregate_collection ex_fs
     [eager_config [(''m'', PList [PInt 4000000000])],
      eager_config [(''m'', PList [PInt 4000000000])]]
     [AvgStd_init ''m''] []
   = (Inr [(''avgstd(m)'',
            [eager_config [(''m'', PList [PInt 4000000000]),
                           (''m_avg'', PArray [Fin 4000000000]), (''m_std'', PArray [NaN])],
             eager_config [(''m'', PList [PInt 4000000000]),
                           (''m_avg'', PArray [Fin 4000000000]), (''m_std'', PArray [NaN])]])], [])
   \<and> std_curve [[4000000000], [4000000000]] = [0]"
proof -
  let ?cs = "[eager_config [(''m'', PList [PInt 4000000000])],
              eager_config [(''m'', PList [PInt 4000000000])]]"
  let ?vls = "[[PInt 4000000000], [PInt 4000000000]]"
  let ?arrs = "[Int64 [4000000000], Int64 [4000000000]]"
  have a: "map (\<lambda>c. map_of (lazy c) ''m'') ?cs = map (\<lambda>vl. Some (Eager (PList vl))) ?vls"
    by (simp add: eager_config_def)
  have b: "map np_asarray ?vls = map Inr ?arrs" by (simp add: np_asarray_def int64_def)
  have c: "\<forall>c\<in>set ?cs. Config_free_unused c = Inr c" by (simp add: eager_free_unused)
  have two: "2 \<le> length ?cs" by simp
  from aggregate_collection_avgstd_many [OF a b c two, of ex_fs "[]"]
  have "aggregate_collection ex_fs ?cs [AvgStd_init ''m''] []
   = (Inr [(''avgstd(m)'',
            [eager_config [(''m'', PList [PInt 4000000000]),
                           (''m_avg'', PArray [Fin 4000000000]), (''m_std'', PArray [NaN])],
             eager_config [(''m'', PList [PInt 4000000000]),
                           (''m_avg'', PArray [Fin 4000000000]), (''m_std'', PArray [NaN])]])], [])"
    by (simp add: wrapped_float_curves Config_update_def eager_config_def)
  with exact_std_example show ?thesis by simp
qed

section \<open>The grouping function\<close>


lemma leaves_update:
  "list_all (\<lambda>kv. P (snd kv)) d \<Longrightarrow> P v \<Longrightarrow> list_all (\<lambda>kv. P (snd kv)) (AList.update k v d)"
  by (induction d) auto

lemma leaves_lookup:
  "list_all (\<lambda>kv. P (snd kv)) d \<Longrightarrow> map_of d k = Some v \<Longrightarrow> P v"
  by (induction d) (auto split: if_splits)

lemma leaves_at_depth_Suc_Leaf [simp]: "\<not> leaves_at_depth (Suc n) (Leaf xs)"
  by simp

lemma leaves_at_depth_0_Node [simp]: "\<not> leaves_at_depth 0 (Node d)"
  by simp


lemma leaf_at_empty [simp]: "leaf_at [] q = None"
proof (cases q)
  case Nil
  then show ?thesis by simp
next
  case (Cons a as)
  then show ?thesis by (cases as) simp_all
qed

lemma add_nested_uniform:
  assumes "list_all (\<lambda>kv. leaves_at_depth n (snd kv)) d" and "length p = Suc n"
  shows "\<exists>d'. add_nested_keys_val d p val = Inr d'
           \<and> list_all (\<lambda>kv. leaves_at_depth n (snd kv)) d'
           \<and> leaf_at d' p = Some (leaf_or_empty d p @ val)
           \<and> (\<forall>q. length q = length p \<and> q \<noteq> p \<longrightarrow> leaf_at d' q = leaf_at d q)"
  using assms
proof (induction p arbitrary: d n)
  case Nil
  then show ?case by simp
next
  case (Cons k p)
  show ?case
  proof (cases p)
    case Nil
    with Cons.prems have n: "n = 0" by simp
    have leafs: "\<And>v. map_of d k = Some v \<Longrightarrow> \<exists>xs. v = Leaf xs"
    proof -
      fix v assume "map_of d k = Some v"
      with Cons.prems(1) have "leaves_at_depth 0 v" unfolding n by (rule leaves_lookup)
      then show "\<exists>xs. v = Leaf xs" by (cases v) simp_all
    qed
    have other: "\<And>q. length q = length [k] \<and> q \<noteq> [k] \<Longrightarrow> \<exists>k2. q = [k2] \<and> k2 \<noteq> k"
    proof -
      fix q :: "string list" assume "length q = length [k] \<and> q \<noteq> [k]"
      then show "\<exists>k2. q = [k2] \<and> k2 \<noteq> k" by (cases q) auto
    qed
    show ?thesis
    proof (cases "map_of d k")
      case None
      have "list_all (\<lambda>kv. leaves_at_depth n (snd kv)) (AList.update k (Leaf val) d)"
        using Cons.prems(1) by (rule leaves_update) (simp add: n)
      moreover have "\<forall>q. length q = length [k] \<and> q \<noteq> [k] \<longrightarrow>
               leaf_at (AList.update k (Leaf val) d) q = leaf_at d q"
        using other by (fastforce simp: update_conv')
      ultimately show ?thesis
        by (simp add: Nil None leaf_or_empty_def update_conv')
    next
      case (Some v)
      with leafs obtain xs where v: "v = Leaf xs" by blast
      have "list_all (\<lambda>kv. leaves_at_depth n (snd kv)) (AList.update k (Leaf (xs @ val)) d)"
        using Cons.prems(1) by (rule leaves_update) (simp add: n)
      moreover have "\<forall>q. length q = length [k] \<and> q \<noteq> [k] \<longrightarrow>
               leaf_at (AList.update k (Leaf (xs @ val)) d) q = leaf_at d q"
        using other by (fastforce simp: update_conv')
      ultimately show ?thesis
        by (simp add: Nil Some v leaf_or_empty_def update_conv')
    qed
  next
    case (Cons k' ks)
    with Cons.prems obtain m where n: "n = Suc m" and lp: "length p = Suc m" by (cases n) auto
    have nodes: "\<And>v. map_of d k = Some v \<Longrightarrow> \<exists>sub. v = Node sub \<and> list_all (\<lambda>kv. leaves_at_depth m (snd kv)) sub"
    proof -
      fix v assume "map_of d k = Some v"
      with Cons.prems(1) have "leaves_at_depth (Suc m) v" unfolding n by (rule leaves_lookup)
      then show "\<exists>sub. v = Node sub \<and> list_all (\<lambda>kv. leaves_at_depth m (snd kv)) sub"
        by (cases v) simp_all
    qed
    define sub where "sub = (case map_of d k of Some (Node s) \<Rightarrow> s | _ \<Rightarrow> [])"
    have sub_ok: "list_all (\<lambda>kv. leaves_at_depth m (snd kv)) sub"
      using nodes by (auto simp: sub_def split: option.splits nested.splits)
    from Cons.IH [OF sub_ok lp, of ] obtain sub' where
      a: "add_nested_keys_val sub p val = Inr sub'"
      and b: "list_all (\<lambda>kv. leaves_at_depth m (snd kv)) sub'"
      and c: "leaf_at sub' p = Some (leaf_or_empty sub p @ val)"
      and e: "\<forall>q. length q = length p \<and> q \<noteq> p \<longrightarrow> leaf_at sub' q = leaf_at sub q"
      by blast
    have step: "add_nested_keys_val d (k # p) val = Inr (AList.update k (Node sub') d)"
      using a nodes by (auto simp: Cons sub_def split: option.splits nested.splits)
    have depth: "list_all (\<lambda>kv. leaves_at_depth n (snd kv)) (AList.update k (Node sub') d)"
      using Cons.prems(1) by (rule leaves_update) (simp add: n b)
    have sub_leaf: "\<And>q. q \<noteq> [] \<Longrightarrow> leaf_at d (k # q) = leaf_at sub q"
    proof -
      fix q :: "string list" assume "q \<noteq> []"
      then obtain a as where "q = a # as" by (cases q) auto
      then show "leaf_at d (k # q) = leaf_at sub q"
        using nodes by (auto simp: sub_def split: option.splits nested.splits)
    qed
    have new_leaf: "\<And>q. q \<noteq> [] \<Longrightarrow> leaf_at (AList.update k (Node sub') d) (k # q) = leaf_at sub' q"
    proof -
      fix q :: "string list" assume "q \<noteq> []"
      then obtain a as where "q = a # as" by (cases q) auto
      then show "leaf_at (AList.update k (Node sub') d) (k # q) = leaf_at sub' q"
        by (simp add: update_conv')
    qed
    have pne: "p \<noteq> []" by (simp add: Cons)
    have at_p: "leaf_at (AList.update k (Node sub') d) (k # p) = Some (leaf_or_empty d (k # p) @ val)"
      using c by (simp add: new_leaf [OF pne] leaf_or_empty_def sub_leaf [OF pne])
    have others: "\<forall>q. length q = length (k # p) \<and> q \<noteq> k # p \<longrightarrow>
                    leaf_at (AList.update k (Node sub') d) q = leaf_at d q"
    proof (intro allI impI)
      fix q :: "string list" assume q: "length q = length (k # p) \<and> q \<noteq> k # p"
      then obtain k2 q' where qq: "q = k2 # q'" and lq: "length q' = length p" by (cases q) auto
      from lq pne have q'ne: "q' \<noteq> []" by auto
      then obtain a as where q': "q' = a # as" by (cases q') auto
      show "leaf_at (AList.update k (Node sub') d) q = leaf_at d q"
      proof (cases "k2 = k")
        case True
        with q qq have "q' \<noteq> p" by simp
        with e lq have "leaf_at sub' q' = leaf_at sub q'" by simp
        then show ?thesis
          by (simp add: qq True new_leaf [OF q'ne] sub_leaf [OF q'ne])
      next
        case False
        then show ?thesis by (simp add: qq q' update_conv')
      qed
    qed
    from step depth at_p others show ?thesis by blast
  qed
qed


lemma complete_tuple:
  assumes "\<forall>k\<in>set ks. \<exists>v. map_of (flattened c) k = Some v \<and> v \<noteq> PNone"
  shows "\<exists>vals. lookup_keys (flattened c) ks = Inr vals
           \<and> map str_of (filter (\<lambda>pkey. pkey \<noteq> PNone) vals) = group_tuple str_of ks c
           \<and> length (group_tuple str_of ks c) = length ks"
  using assms
proof (induction ks)
  case Nil
  then show ?case by (simp add: group_tuple_def)
next
  case (Cons k ks)
  then obtain v where v: "map_of (flattened c) k = Some v" "v \<noteq> PNone" by auto
  from Cons obtain vals where "lookup_keys (flattened c) ks = Inr vals"
    "map str_of (filter (\<lambda>pkey. pkey \<noteq> PNone) vals) = group_tuple str_of ks c"
    "length (group_tuple str_of ks c) = length ks" by auto
  with v show ?case by (simp add: group_tuple_def dict_getitem_def)
qed

lemma reduce_get_leaf:
  "leaf_at t q = Some xs \<Longrightarrow> reduce_get (Some (Node t)) q = Inr (Some (Leaf xs))"
proof (induction t q rule: leaf_at.induct)
  case (1 d)
  then show ?case by simp
next
  case (2 d k)
  then show ?case by (auto split: option.splits nested.splits)
next
  case (3 d k k' ks)
  then show ?case by (auto split: option.splits nested.splits)
qed

lemma group_rows_invariant:
  assumes ks: "length ks = Suc n"
      and complete: "\<forall>c\<in>set cs. \<forall>k\<in>set ks. \<exists>v. map_of (flattened c) k = Some v \<and> v \<noteq> PNone"
      and depth: "list_all (\<lambda>kv. leaves_at_depth n (snd kv)) t"
      and leaves: "\<forall>q. length q = Suc n \<longrightarrow>
                     leaf_at t q = (if q \<in> set gv then Some (filter (\<lambda>c. group_tuple str_of ks c = q) pre) else None)"
      and dist: "distinct gv"
      and cover: "set gv = group_tuple str_of ks ` set pre"
  shows "\<exists>t' gv'. group_rows str_of cs ks t gv = Inr (t', gv')
           \<and> (\<forall>q. length q = Suc n \<longrightarrow>
                 leaf_at t' q = (if q \<in> set gv' then Some (filter (\<lambda>c. group_tuple str_of ks c = q) (pre @ cs)) else None))
           \<and> distinct gv'
           \<and> set gv' = group_tuple str_of ks ` set (pre @ cs)"
  using complete depth leaves dist cover
proof (induction cs arbitrary: t gv pre)
  case Nil
  then show ?case by simp
next
  case (Cons c cs)
  let ?p = "group_tuple str_of ks c"
  from Cons.prems(1) have cc: "\<forall>k\<in>set ks. \<exists>v. map_of (flattened c) k = Some v \<and> v \<noteq> PNone"
    and rest: "\<forall>c\<in>set cs. \<forall>k\<in>set ks. \<exists>v. map_of (flattened c) k = Some v \<and> v \<noteq> PNone"
    by simp_all
  from complete_tuple [OF cc, of str_of] obtain vals where
    lk: "lookup_keys (flattened c) ks = Inr vals"
    and tp: "map str_of (filter (\<lambda>pkey. pkey \<noteq> PNone) vals) = ?p"
    and lp: "length ?p = Suc n" using ks by auto
  from add_nested_uniform [OF Cons.prems(2) lp, of "[c]"] obtain t' where
    add: "add_nested_keys_val t ?p [c] = Inr t'"
    and depth': "list_all (\<lambda>kv. leaves_at_depth n (snd kv)) t'"
    and at: "leaf_at t' ?p = Some (leaf_or_empty t ?p @ [c])"
    and others: "\<forall>q. length q = length ?p \<and> q \<noteq> ?p \<longrightarrow> leaf_at t' q = leaf_at t q"
    by blast
  let ?gv' = "if ?p \<in> set gv then gv else gv @ [?p]"
  have old: "leaf_or_empty t ?p = filter (\<lambda>c. group_tuple str_of ks c = ?p) pre"
  proof (cases "?p \<in> set gv")
    case True
    with Cons.prems(3) lp show ?thesis by (simp add: leaf_or_empty_def)
  next
    case False
    with Cons.prems(5) have "\<forall>c'\<in>set pre. group_tuple str_of ks c' \<noteq> ?p"
      by (metis imageI)
    then have "filter (\<lambda>c. group_tuple str_of ks c = ?p) pre = []" by (simp add: filter_empty_conv)
    with False Cons.prems(3) lp show ?thesis by (simp add: leaf_or_empty_def)
  qed
  have leaves': "\<forall>q. length q = Suc n \<longrightarrow>
        leaf_at t' q = (if q \<in> set ?gv' then Some (filter (\<lambda>c. group_tuple str_of ks c = q) (pre @ [c])) else None)"
  proof (intro allI impI)
    fix q :: "string list" assume lq: "length q = Suc n"
    show "leaf_at t' q = (if q \<in> set ?gv' then Some (filter (\<lambda>c. group_tuple str_of ks c = q) (pre @ [c])) else None)"
    proof (cases "q = ?p")
      case True
      then show ?thesis using at old by simp
    next
      case False
      with others lq lp have "leaf_at t' q = leaf_at t q" by simp
      with Cons.prems(3) lq False show ?thesis by auto
    qed
  qed
  have dist': "distinct ?gv'" using Cons.prems(4) by simp
  have cover': "set ?gv' = group_tuple str_of ks ` set (pre @ [c])" using Cons.prems(5) by auto
  from Cons.IH [OF rest depth' leaves' dist' cover'] obtain t'' gv'' where
    r: "group_rows str_of cs ks t' ?gv' = Inr (t'', gv'')"
    and l: "\<forall>q. length q = Suc n \<longrightarrow>
                 leaf_at t'' q = (if q \<in> set gv'' then Some (filter (\<lambda>c. group_tuple str_of ks c = q) ((pre @ [c]) @ cs)) else None)"
    and d: "distinct gv''"
    and s: "set gv'' = group_tuple str_of ks ` set ((pre @ [c]) @ cs)"
    by blast
  have "group_rows str_of (c # cs) ks t gv = Inr (t'', gv'')"
    using r by (simp add: lk tp add)
  with l d s show ?case by simp
qed

lemma collect_groups_leaves:
  assumes "\<forall>q\<in>set gv. leaf_at t q = Some (g q)"
  shows "collect_groups t gv = Inr (map (\<lambda>q. (q, g q)) gv)"
  using assms
  by (induction gv) (simp_all add: reduce_get_leaf)

lemma mset_concat_filter:
  "distinct gv \<Longrightarrow> f ` set cs \<subseteq> set gv \<Longrightarrow>
     mset (concat (map (\<lambda>q. filter (\<lambda>c. f c = q) cs) gv)) = mset cs"
proof (induction cs)
  case Nil
  then show ?case by (induction gv) simp_all
next
  case (Cons c cs)
  have one: "mset (concat (map (\<lambda>q. filter (\<lambda>c. f c = q) (c # cs)) ws))
        = (if f c \<in> set ws then {#c#} else {#}) + mset (concat (map (\<lambda>q. filter (\<lambda>c. f c = q) cs) ws))"
    if "distinct ws" for ws
    using that by (induction ws) auto
  from Cons.prems have "f c \<in> set gv" and "f ` set cs \<subseteq> set gv" by auto
  with Cons.IH [OF Cons.prems(1)] one [OF Cons.prems(1)] show ?case by simp
qed

text \<open>
  What \<open>_group_by\<close> itself computes, for at least one group key and records that all hold
  a value other than \<open>None\<close> at every group key: one group per group-value tuple that
  occurs, each holding the records with that tuple in their original order, so that the
  groups together hold every record exactly once. \<open>ConfigList.groupBy\<close> never hands this
  result on (\<open>groupBy_always_raises\<close>).
\<close>

lemma group_by_partitions:
  assumes "ks \<noteq> []"
      and "\<forall>c\<in>set cs. \<forall>k\<in>set ks. \<exists>v. map_of (flattened c) k = Some v \<and> v \<noteq> PNone"
  shows "\<exists>gv. group_by str_of cs ks
                 = Inr (map (\<lambda>q. (q, filter (\<lambda>c. group_tuple str_of ks c = q) cs)) gv, ks, gv)
             \<and> distinct gv
             \<and> set gv = group_tuple str_of ks ` set cs
             \<and> length gv = card (group_tuple str_of ks ` set cs)
             \<and> mset (concat (map (\<lambda>q. filter (\<lambda>c. group_tuple str_of ks c = q) cs) gv)) = mset cs"
proof -
  from assms(1) obtain n where n: "length ks = Suc n" by (cases ks) auto
  have "\<exists>t' gv'. group_rows str_of cs ks [] [] = Inr (t', gv')
           \<and> (\<forall>q. length q = Suc n \<longrightarrow>
                 leaf_at t' q = (if q \<in> set gv' then Some (filter (\<lambda>c. group_tuple str_of ks c = q) ([] @ cs)) else None))
           \<and> distinct gv'
           \<and> set gv' = group_tuple str_of ks ` set ([] @ cs)"
    by (rule group_rows_invariant [OF n assms(2)]) simp_all
  then obtain t gv where
    r: "group_rows str_of cs ks [] [] = Inr (t, gv)"
    and l: "\<forall>q. length q = Suc n \<longrightarrow>
                 leaf_at t q = (if q \<in> set gv then Some (filter (\<lambda>c. group_tuple str_of ks c = q) cs) else None)"
    and d: "distinct gv"
    and s: "set gv = group_tuple str_of ks ` set cs"
    by auto
  have len: "\<forall>q\<in>set gv. length q = Suc n"
  proof
    fix q assume "q \<in> set gv"
    with s obtain c where c: "c \<in> set cs" and q: "q = group_tuple str_of ks c" by auto
    from assms(2) c have "\<forall>k\<in>set ks. \<exists>v. map_of (flattened c) k = Some v \<and> v \<noteq> PNone" by simp
    from complete_tuple [OF this, of str_of] show "length q = Suc n" by (auto simp: q n)
  qed
  have "\<forall>q\<in>set gv. leaf_at t q = Some (filter (\<lambda>c. group_tuple str_of ks c = q) cs)"
    using l len by simp
  then have cg: "collect_groups t gv = Inr (map (\<lambda>q. (q, filter (\<lambda>c. group_tuple str_of ks c = q) cs)) gv)"
    by (rule collect_groups_leaves)
  have g: "group_by str_of cs ks
                 = Inr (map (\<lambda>q. (q, filter (\<lambda>c. group_tuple str_of ks c = q) cs)) gv, ks, gv)"
    by (simp add: group_by_def r cg)
  have card: "length gv = card (group_tuple str_of ks ` set cs)"
    using d s by (metis distinct_card)
  have perm: "mset (concat (map (\<lambda>q. filter (\<lambda>c. group_tuple str_of ks c = q) cs) gv)) = mset cs"
    using d s by (intro mset_concat_filter) auto
  from g d s card perm show ?thesis by blast
qed

text \<open>
  Where the tuples do not all have the length of the key list, \<open>_group_by\<close> raises: a
  record whose group values are all \<open>None\<close> has the empty tuple, and a tuple that is a
  proper prefix of another replaces the inner dictionary by its own list.
\<close>

lemma group_by_unset_values:
  "group_by str_of [eager_config [(''a'', PNone)]] [''a''] = Inl UnboundLocalError"
  by (simp add: group_by_def eager_config_def dict_getitem_def)

lemma group_by_partly_unset:
  "group_by str_of
     [eager_config [(''a'', PInt 1), (''b'', PInt 2)], eager_config [(''a'', PInt 1), (''b'', PNone)]]
     [''a'', ''b'']
   = Inl TypeError"
  by (simp add: group_by_def eager_config_def dict_getitem_def)

end
